theory Spec2Isabelle
  imports Main
begin

section \<open>The suggestion stream of the chat service\<close>

text \<open>
  The two \<open>ChatService\<close> classes (\<open>week10/frontend/src/services/chatService.ts\<close> and
  \<open>week10/mobile/src/services/api.ts\<close>) keep one \<open>EventSource\<close> and a map of callbacks
  keyed by thread id. Their methods run on a JavaScript event loop, so the model has three
  layers:
  \<^item> the fields of the class (\<open>eventSource\<close>, \<open>suggestionCallbacks\<close>);
  \<^item> the runtime the class talks to: every \<open>EventSource\<close> object constructed so far with
    its handlers, the table of pending \<open>setTimeout\<close> timers, a simulated clock in
    milliseconds, and the queue of promise jobs (microtasks);
  \<^item> the observation: the list of callback invocations, in order.

  The code of a closure is fixed by the class that creates it, so a closure is stored as
  the values it captures: an \<open>onmessage\<close> handler as the \<open>threadId\<close> it closes over, a
  pending promise job as the thread id and the settled value of the promise.

  A callback is code of the caller. The manager sees two things of it: that it was called
  with a value, and whether the call returned or threw (the call sits inside the handler's
  \<open>try\<close>). A callback is therefore a name and a predicate telling on which values it throws.
  Callbacks that call back into the manager are outside the model.

  What the model takes from the platform rather than from the repository: promise jobs
  run first in first out and before the next task of the event loop; an \<open>EventSource\<close>
  dispatches nothing after \<open>close()\<close>; a timer set with delay \<open>d\<close> fires when the
  (simulated) clock has moved on by \<open>d\<close>.
\<close>

subsection \<open>Payloads\<close>

text \<open>
  JSON values. Numbers are kept as integers: the classes look at a number only through
  the truth value of \<open>final\<close>, that is, whether it is zero.
\<close>

datatype json =
    JNull
  | JBool bool
  | JNum int
  | JStr string
  | JArr "json list"
  | JObj "(string \<times> json) list"

datatype error =
    SyntaxError
  | TypeError
  | ReferenceError
  | Error_msg string

text \<open>
  \<open>event.data\<close> is text, and \<open>JSON.parse\<close> belongs to the runtime. The text is modelled by
  what \<open>JSON.parse\<close> makes of it: either it is not JSON (and the call throws
  \<open>SyntaxError\<close>), or it denotes a JSON value.
\<close>

datatype payload = Unparseable string | Parseable json

fun JSON_parse :: "payload \<Rightarrow> error + json" where
  "JSON_parse (Unparseable txt) = Inl SyntaxError"
| "JSON_parse (Parseable v) = Inr v"

text \<open>
  \<open>data.final\<close>: reading a property of \<open>null\<close> throws \<open>TypeError\<close>; on an object the last
  of several equal keys wins; on every other value the property is \<open>undefined\<close> (\<open>None\<close>).
\<close>

fun get_final :: "json \<Rightarrow> error + json option" where
  "get_final JNull = Inl TypeError"
| "get_final (JObj kvs) = Inr (map_of (rev kvs) ''final'')"
| "get_final (JBool b) = Inr None"
| "get_final (JNum n) = Inr None"
| "get_final (JStr s) = Inr None"
| "get_final (JArr vs) = Inr None"

text \<open>The truth value JavaScript gives a property in \<open>if (data.final)\<close>.\<close>

fun truthy :: "json option \<Rightarrow> bool" where
  "truthy None = False"
| "truthy (Some JNull) = False"
| "truthy (Some (JBool b)) = b"
| "truthy (Some (JNum n)) = (n \<noteq> 0)"
| "truthy (Some (JStr s)) = (s \<noteq> [])"
| "truthy (Some (JArr vs)) = True"
| "truthy (Some (JObj kvs)) = True"

text \<open>
  The shape \<open>SuggestionEvent\<close> of \<open>types/api.ts\<close>: \<open>suggestions: string[]\<close> and \<open>event\<close>
  (one of four literals) are required; \<open>route\<close>, \<open>final\<close> and \<open>error\<close> are optional.
\<close>

fun is_string :: "json \<Rightarrow> bool" where
  "is_string (JStr s) = True"
| "is_string v = False"

fun is_boolean :: "json \<Rightarrow> bool" where
  "is_boolean (JBool b) = True"
| "is_boolean v = False"

definition absent_or :: "(json \<Rightarrow> bool) \<Rightarrow> json option \<Rightarrow> bool" where
  "absent_or p v = (case v of None \<Rightarrow> True | Some x \<Rightarrow> p x)"

definition present_and :: "(json \<Rightarrow> bool) \<Rightarrow> json option \<Rightarrow> bool" where
  "present_and p v = (case v of None \<Rightarrow> False | Some x \<Rightarrow> p x)"

fun is_string_array :: "json \<Rightarrow> bool" where
  "is_string_array (JArr vs) = list_all is_string vs"
| "is_string_array v = False"

fun is_event_kind :: "json \<Rightarrow> bool" where
  "is_event_kind (JStr s) = (s = ''react_start'' \<or> s = ''react'' \<or> s = ''error'' \<or> s = ''suggest'')"
| "is_event_kind v = False"

fun is_error_info :: "json \<Rightarrow> bool" where
  "is_error_info (JObj kvs) =
     (present_and is_string (map_of (rev kvs) ''code'') \<and>
      present_and is_string (map_of (rev kvs) ''message''))"
| "is_error_info v = False"

fun is_SuggestionEvent :: "json \<Rightarrow> bool" where
  "is_SuggestionEvent (JObj kvs) =
     (absent_or is_string (map_of (rev kvs) ''route'') \<and>
      present_and is_string_array (map_of (rev kvs) ''suggestions'') \<and>
      present_and is_event_kind (map_of (rev kvs) ''event'') \<and>
      absent_or is_boolean (map_of (rev kvs) ''final'') \<and>
      absent_or is_error_info (map_of (rev kvs) ''error''))"
| "is_SuggestionEvent v = False"

subsection \<open>The class and the runtime\<close>

datatype callback = Callback (cb_name: nat) (cb_throws: "json \<Rightarrow> bool")

text \<open>
  An \<open>EventSource\<close> object: the thread id in its URL \<open>${baseURL}/suggest/${threadId}\<close>,
  whether \<open>close()\<close> was called on it, the thread id its \<open>onmessage\<close> closure captured (once
  the handler is assigned), and whether \<open>onerror\<close> is assigned.
\<close>

record stream =
  url_thread :: string
  closed :: bool
  onmessage :: "string option"
  onerror :: bool

text \<open>
  Promise jobs. \<open>Await_resume\<close> is the rest of the frontend's \<open>startSuggestionStream\<close>
  after \<open>await apiService.getSuggestions(threadId)\<close>; \<open>Then_reaction\<close> is the job of the
  mobile's \<open>.then(...)\<close> on the same promise; \<open>Catch_reaction\<close> is the job of the \<open>.catch(...)\<close>
  chained to it, which runs once the promise that \<open>.then\<close> returned has settled:
  with the error when it was rejected, with nothing to do when it was fulfilled.
\<close>

datatype microtask =
    Await_resume string "error + nat"
  | Then_reaction string "error + nat"
  | Catch_reaction "error option"

record state =
  eventSource :: "nat option"
  suggestionCallbacks :: "string \<rightharpoonup> callback"
  streams :: "stream list"
  timers :: "nat list"
  now :: nat
  microtasks :: "microtask list"
  invoked :: "(nat \<times> nat \<times> json) list"

text \<open>
  \<open>streams\<close> holds every \<open>EventSource\<close> constructed so far; an object is named by its
  position. \<open>timers\<close> holds the deadlines of the pending \<open>setTimeout\<close> calls; the handle
  \<open>setTimeout\<close> returns is dropped by both classes, and every timer closure is
  \<open>() => this.stopSuggestionStream()\<close>. An entry \<open>(sid, c, v)\<close> of \<open>invoked\<close> says that the
  \<open>onmessage\<close> handler of stream \<open>sid\<close> called the callback named \<open>c\<close> with \<open>v\<close>.
\<close>

definition init :: state where
  "init = \<lparr>eventSource = None, suggestionCallbacks = Map.empty, streams = [], timers = [],
           now = 0, microtasks = [], invoked = []\<rparr>"

text \<open>What the runtime decides when \<open>new EventSource(url)\<close> is evaluated.\<close>

datatype runtime = No_EventSource | Constructor_throws | Constructs

definition update_stream :: "nat \<Rightarrow> (stream \<Rightarrow> stream) \<Rightarrow> state \<Rightarrow> state" where
  "update_stream sid f s =
     (if sid < length (streams s) then s\<lparr>streams := (streams s)[sid := f (streams s ! sid)]\<rparr>
      else s)"

definition close :: "nat \<Rightarrow> state \<Rightarrow> state" where
  "close sid s = update_stream sid (\<lambda>es. es\<lparr>closed := True\<rparr>) s"

definition new_EventSource :: "runtime \<Rightarrow> string \<Rightarrow> state \<Rightarrow> (error + nat) \<times> state" where
  "new_EventSource rt threadId s =
     (case rt of
        No_EventSource \<Rightarrow> (Inl ReferenceError, s)
      | Constructor_throws \<Rightarrow> (Inl SyntaxError, s)
      | Constructs \<Rightarrow>
          (Inr (length (streams s)),
           s\<lparr>streams := streams s @
                [\<lparr>url_thread = threadId, closed = False, onmessage = None, onerror = False\<rparr>]\<rparr>))"

definition setTimeout :: "nat \<Rightarrow> state \<Rightarrow> state" where
  "setTimeout delay s = s\<lparr>timers := timers s @ [now s + delay]\<rparr>"

subsection \<open>The frontend class (\<open>chatService.ts\<close>, with \<open>getSuggestions\<close> of the frontend's \<open>api.ts\<close>)\<close>

text \<open>
  \<open>getSuggestions\<close> is \<open>async\<close> and has no \<open>await\<close>: the object is constructed during the
  call, and the promise returned is already settled, fulfilled with the object or
  rejected with what the constructor threw.
\<close>

definition getSuggestions :: "runtime \<Rightarrow> string \<Rightarrow> state \<Rightarrow> (error + nat) \<times> state" where
  "getSuggestions rt threadId s = new_EventSource rt threadId s"

definition stopSuggestionStream :: "state \<Rightarrow> state" where
  "stopSuggestionStream s =
     (let s1 = (case eventSource s of
                  None \<Rightarrow> s
                | Some es \<Rightarrow> (close es s)\<lparr>eventSource := None\<rparr>)
      in s1\<lparr>suggestionCallbacks := Map.empty\<rparr>)"

text \<open>The part of \<open>startSuggestionStream\<close> that runs during the call, up to the \<open>await\<close>.\<close>

definition startSuggestionStream :: "string \<Rightarrow> callback \<Rightarrow> runtime \<Rightarrow> state \<Rightarrow> state" where
  "startSuggestionStream threadId cb rt s =
     (let s1 = s\<lparr>suggestionCallbacks := (suggestionCallbacks s)(threadId \<mapsto> cb)\<rparr>;
          s2 = (case eventSource s1 of None \<Rightarrow> s1 | Some es \<Rightarrow> close es s1);
          (p, s3) = getSuggestions rt threadId s2
      in s3\<lparr>microtasks := microtasks s3 @ [Await_resume threadId p]\<rparr>)"

text \<open>
  The rest of it, run as a promise job: the \<open>catch\<close> block when the promise was rejected;
  otherwise the assignment to \<open>this.eventSource\<close>, the two handlers and the timer.
\<close>

definition startSuggestionStream_resume :: "string \<Rightarrow> error + nat \<Rightarrow> state \<Rightarrow> state" where
  "startSuggestionStream_resume threadId p s =
     (case p of
        Inl e \<Rightarrow> stopSuggestionStream s
      | Inr es \<Rightarrow>
          (let s1 = s\<lparr>eventSource := Some es\<rparr>;
               s2 = update_stream es (\<lambda>x. x\<lparr>onmessage := Some threadId\<rparr>) s1;
               s3 = update_stream es (\<lambda>x. x\<lparr>onerror := True\<rparr>) s2
           in setTimeout 15000 s3))"

text \<open>
  The \<open>onmessage\<close> closure. \<open>via\<close> names the stream whose handler runs; it is used for the
  observation only. Whatever is thrown inside the \<open>try\<close> (by \<open>JSON.parse\<close>, by the
  callback, by reading \<open>final\<close> of \<open>null\<close>) ends the handler in the \<open>catch\<close>, which only logs
  to the console.
\<close>

definition onmessage_frontend :: "nat \<Rightarrow> string \<Rightarrow> payload \<Rightarrow> state \<Rightarrow> state" where
  "onmessage_frontend via threadId raw s =
     (case JSON_parse raw of
        Inl e \<Rightarrow> s
      | Inr data \<Rightarrow>
          (let (thrown, s1) =
                 (case suggestionCallbacks s threadId of
                    None \<Rightarrow> (False, s)
                  | Some cb \<Rightarrow>
                      (cb_throws cb data, s\<lparr>invoked := invoked s @ [(via, cb_name cb, data)]\<rparr>))
           in if thrown then s1
              else (case get_final data of
                      Inl e \<Rightarrow> s1
                    | Inr v \<Rightarrow> if truthy v then stopSuggestionStream s1 else s1)))"

subsection \<open>The mobile class (\<open>ChatService\<close> and \<open>getSuggestions\<close> of the mobile's \<open>api.ts\<close>)\<close>

definition getSuggestions_mobile :: "runtime \<Rightarrow> string \<Rightarrow> state \<Rightarrow> (error + nat) \<times> state" where
  "getSuggestions_mobile rt threadId s =
     (if rt = No_EventSource then (Inl (Error_msg ''EventSource not supported''), s)
      else new_EventSource rt threadId s)"

definition stopSuggestionStream_mobile :: "state \<Rightarrow> state" where
  "stopSuggestionStream_mobile s =
     (let s1 = (case eventSource s of
                  None \<Rightarrow> s
                | Some es \<Rightarrow> (close es s)\<lparr>eventSource := None\<rparr>)
      in s1\<lparr>suggestionCallbacks := Map.empty\<rparr>)"

text \<open>
  What a call of an \<open>async\<close> function hands back to the mobile's \<open>startSuggestionStream\<close>:
  it never throws and always returns a promise, so of the three ways out of the \<open>try\<close>
  (\<open>.then\<close> on the promise, the \<open>else\<close> for a value without \<open>then\<close>, the \<open>catch\<close> for a
  throw during the call) only the first is taken.
\<close>

datatype returned = Promise "error + nat" | Not_thenable

definition call_getSuggestions_mobile ::
  "runtime \<Rightarrow> string \<Rightarrow> state \<Rightarrow> (error + returned) \<times> state" where
  "call_getSuggestions_mobile rt threadId s =
     (let (p, s1) = getSuggestions_mobile rt threadId s in (Inr (Promise p), s1))"

definition startSuggestionStream_mobile :: "string \<Rightarrow> callback \<Rightarrow> runtime \<Rightarrow> state \<Rightarrow> state" where
  "startSuggestionStream_mobile threadId cb rt s =
     (let s1 = s\<lparr>suggestionCallbacks := (suggestionCallbacks s)(threadId \<mapsto> cb)\<rparr>;
          s2 = (case eventSource s1 of None \<Rightarrow> s1 | Some es \<Rightarrow> close es s1);
          (r, s3) = call_getSuggestions_mobile rt threadId s2
      in case r of
           Inl e \<Rightarrow> stopSuggestionStream_mobile s3
         | Inr Not_thenable \<Rightarrow> stopSuggestionStream_mobile s3
         | Inr (Promise p) \<Rightarrow> s3\<lparr>microtasks := microtasks s3 @ [Then_reaction threadId p]\<rparr>)"

text \<open>The function passed to \<open>.then\<close>, run with the object the promise was fulfilled with.\<close>

definition then_callback_mobile :: "string \<Rightarrow> nat \<Rightarrow> state \<Rightarrow> state" where
  "then_callback_mobile threadId es s =
     (let s1 = s\<lparr>eventSource := Some es\<rparr>;
          s2 = update_stream es (\<lambda>x. x\<lparr>onmessage := Some threadId\<rparr>) s1;
          s3 = update_stream es (\<lambda>x. x\<lparr>onerror := True\<rparr>) s2
      in setTimeout 15000 s3)"

definition onmessage_mobile :: "nat \<Rightarrow> string \<Rightarrow> payload \<Rightarrow> state \<Rightarrow> state" where
  "onmessage_mobile via threadId raw s =
     (case JSON_parse raw of
        Inl e \<Rightarrow> s
      | Inr data \<Rightarrow>
          (let (thrown, s1) =
                 (case suggestionCallbacks s threadId of
                    None \<Rightarrow> (False, s)
                  | Some cb \<Rightarrow>
                      (cb_throws cb data, s\<lparr>invoked := invoked s @ [(via, cb_name cb, data)]\<rparr>))
           in if thrown then s1
              else (case get_final data of
                      Inl e \<Rightarrow> s1
                    | Inr v \<Rightarrow> if truthy v then stopSuggestionStream_mobile s1 else s1)))"

subsection \<open>The event loop\<close>

text \<open>
  One promise job. A rejected promise passes \<open>.then(f)\<close> without running \<open>f\<close> and rejects
  the promise \<open>.then\<close> returned; the handler of \<open>.catch\<close> is a job of its own, queued
  behind whatever is already in the queue.
\<close>

fun run_microtask :: "microtask \<Rightarrow> state \<Rightarrow> state" where
  "run_microtask (Await_resume threadId p) s = startSuggestionStream_resume threadId p s"
| "run_microtask (Then_reaction threadId (Inr es)) s =
     (let s1 = then_callback_mobile threadId es s
      in s1\<lparr>microtasks := microtasks s1 @ [Catch_reaction None]\<rparr>)"
| "run_microtask (Then_reaction threadId (Inl e)) s =
     s\<lparr>microtasks := microtasks s @ [Catch_reaction (Some e)]\<rparr>"
| "run_microtask (Catch_reaction (Some e)) s = stopSuggestionStream_mobile s"
| "run_microtask (Catch_reaction None) s = s"

fun job_weight :: "microtask \<Rightarrow> nat" where
  "job_weight (Await_resume threadId p) = 1"
| "job_weight (Then_reaction threadId p) = 2"
| "job_weight (Catch_reaction e) = 1"

text \<open>
  The queue of promise jobs is emptied, first in first out, before the event loop takes
  its next task. A job may append a job, so the loop is not structural; the weights above
  are its measure.
\<close>

function drain :: "state \<Rightarrow> state" where
  "drain s =
     (case microtasks s of
        [] \<Rightarrow> s
      | job # rest \<Rightarrow> drain (run_microtask job (s\<lparr>microtasks := rest\<rparr>)))"
  by pat_completeness auto
termination
proof (relation "measure (\<lambda>s. sum_list (map job_weight (microtasks s)))")
  show "wf (measure (\<lambda>s. sum_list (map job_weight (microtasks s))))" by simp
next
  fix s :: state and job rest
  assume queue: "microtasks s = job # rest"
  have lighter: "sum_list (map job_weight (microtasks (run_microtask job t)))
      < job_weight job + sum_list (map job_weight (microtasks t))" for t
    by (induction job t rule: run_microtask.induct)
       (simp_all add: startSuggestionStream_resume_def then_callback_mobile_def
          stopSuggestionStream_def stopSuggestionStream_mobile_def setTimeout_def close_def
          update_stream_def Let_def split: sum.splits option.splits)
  show "(run_microtask job (s\<lparr>microtasks := rest\<rparr>), s)
          \<in> measure (\<lambda>s. sum_list (map job_weight (microtasks s)))"
    using lighter [of "s\<lparr>microtasks := rest\<rparr>"] queue by simp
qed

declare drain.simps [simp del]

text \<open>
  An \<open>EventSource\<close> dispatches an event to its handler only while it is not closed: after
  \<open>close()\<close> the runtime delivers nothing more, not even what was already queued.
\<close>

definition message_listener :: "state \<Rightarrow> nat \<Rightarrow> string option" where
  "message_listener s sid =
     (if sid < length (streams s) \<and> \<not> closed (streams s ! sid)
      then onmessage (streams s ! sid) else None)"

definition error_listener :: "state \<Rightarrow> nat \<Rightarrow> bool" where
  "error_listener s sid =
     (sid < length (streams s) \<and> \<not> closed (streams s ! sid) \<and> onerror (streams s ! sid))"

text \<open>
  The clock moves on by \<open>d\<close> milliseconds and every timer that is due by then fires, in the
  order the timers were set; \<open>handler\<close> is the timer closure of the class.
\<close>

definition advance :: "(state \<Rightarrow> state) \<Rightarrow> nat \<Rightarrow> state \<Rightarrow> state" where
  "advance handler d s =
     (let t = now s + d;
          due = filter (\<lambda>deadline. deadline \<le> t) (timers s);
          pending = filter (\<lambda>deadline. \<not> deadline \<le> t) (timers s)
      in fold (\<lambda>deadline. handler) due (s\<lparr>now := t, timers := pending\<rparr>))"

text \<open>
  What can happen to a manager. \<open>Start\<close> and \<open>Stop\<close> are calls by the user, made inside
  the running task: several can follow each other before any promise job runs. \<open>Yield\<close>
  ends the running task. A message, a stream error and the passing of time are tasks of
  the event loop: the job queue is empty when they start.
\<close>

datatype input =
    Start string callback runtime
  | Stop
  | Yield
  | Message nat payload
  | Stream_error nat
  | Advance nat

fun step :: "input \<Rightarrow> state \<Rightarrow> state" where
  "step (Start threadId cb rt) s = startSuggestionStream threadId cb rt s"
| "step Stop s = stopSuggestionStream s"
| "step Yield s = drain s"
| "step (Message sid raw) s =
     (let s0 = drain s
      in case message_listener s0 sid of
           None \<Rightarrow> s0
         | Some threadId \<Rightarrow> onmessage_frontend sid threadId raw s0)"
| "step (Stream_error sid) s =
     (let s0 = drain s in if error_listener s0 sid then stopSuggestionStream s0 else s0)"
| "step (Advance d) s = advance stopSuggestionStream d (drain s)"

fun step_mobile :: "input \<Rightarrow> state \<Rightarrow> state" where
  "step_mobile (Start threadId cb rt) s = startSuggestionStream_mobile threadId cb rt s"
| "step_mobile Stop s = stopSuggestionStream_mobile s"
| "step_mobile Yield s = drain s"
| "step_mobile (Message sid raw) s =
     (let s0 = drain s
      in case message_listener s0 sid of
           None \<Rightarrow> s0
         | Some threadId \<Rightarrow> onmessage_mobile sid threadId raw s0)"
| "step_mobile (Stream_error sid) s =
     (let s0 = drain s in if error_listener s0 sid then stopSuggestionStream_mobile s0 else s0)"
| "step_mobile (Advance d) s = advance stopSuggestionStream_mobile d (drain s)"

definition run :: "input list \<Rightarrow> state \<Rightarrow> state" where
  "run ins s = fold step ins s"

definition run_mobile :: "input list \<Rightarrow> state \<Rightarrow> state" where
  "run_mobile ins s = fold step_mobile ins s"

subsection \<open>Notions used in the statements\<close>

text \<open>A call of \<open>startSuggestionStream\<close>.\<close>

fun is_start :: "input \<Rightarrow> bool" where
  "is_start (Start tid cb rt) = True"
| "is_start e = False"

text \<open>
  A message carries a final event when the handler's test \<open>if (data.final)\<close> succeeds on
  it. The events that end a session: such a message, a stream error, a call of
  \<open>stopSuggestionStream\<close>, and a call of \<open>startSuggestionStream\<close>, which supersedes the
  session. The end of a task and the passing of time end nothing by themselves.
\<close>

definition carries_final :: "payload \<Rightarrow> bool" where
  "carries_final raw =
     (case JSON_parse raw of
        Inl e \<Rightarrow> False
      | Inr data \<Rightarrow> (case get_final data of Inl e \<Rightarrow> False | Inr v \<Rightarrow> truthy v))"

fun terminating :: "input \<Rightarrow> bool" where
  "terminating (Start threadId cb rt) = True"
| "terminating Stop = True"
| "terminating Yield = False"
| "terminating (Message sid raw) = carries_final raw"
| "terminating (Stream_error sid) = True"
| "terminating (Advance d) = False"

text \<open>
  An input sequence is orderly when no call whose stream is constructed follows, in the
  same task, a call whose construction failed. The flag says whether a failed call is
  pending in the running task.
\<close>

fun orderly :: "bool \<Rightarrow> input list \<Rightarrow> bool" where
  "orderly pending [] = True"
| "orderly pending (Start tid cb rt # ins) =
     (if rt = Constructs then \<not> pending \<and> orderly pending ins else orderly True ins)"
| "orderly pending (Stop # ins) = orderly pending ins"
| "orderly pending (Yield # ins) = orderly False ins"
| "orderly pending (Message sid raw # ins) = orderly False ins"
| "orderly pending (Stream_error sid # ins) = orderly False ins"
| "orderly pending (Advance d # ins) = orderly False ins"

text \<open>
  A sequence of inputs in which every call of \<open>startSuggestionStream\<close> is the last thing
  its task does: the task ends, and the promise job of the call runs, before anything
  else happens to the manager.
\<close>

fun sequential :: "input list \<Rightarrow> bool" where
  "sequential [] = True"
| "sequential (Start tid cb rt # Yield # ins) = sequential ins"
| "sequential (Start tid cb rt # ins) = False"
| "sequential (e # ins) = sequential ins"

text \<open>
  An input that constructs no stream: a call of \<open>startSuggestionStream\<close> whose
  \<open>new EventSource\<close> fails, or a call of \<open>stopSuggestionStream\<close>. Both are calls by the
  user and leave the running task running.
\<close>

fun opens_nothing :: "input \<Rightarrow> bool" where
  "opens_nothing (Start tid cb rt) = (rt \<noteq> Constructs)"
| "opens_nothing Stop = True"
| "opens_nothing e = False"

text \<open>
  An input at which the running task is over: the end of the task itself, or a task of
  the event loop, which starts only after the promise jobs of the task before it have run.
\<close>

fun ends_task :: "input \<Rightarrow> bool" where
  "ends_task (Start tid cb rt) = False"
| "ends_task Stop = False"
| "ends_task e = True"

subsection \<open>Notions used in the proofs\<close>

text \<open>No promise job is pending and no stream is open but the one the manager holds.\<close>

definition only_held_is_open :: "state \<Rightarrow> bool" where
  "only_held_is_open s =
     (microtasks s = [] \<and>
      (\<forall>sid < length (streams s). closed (streams s ! sid) \<or> eventSource s = Some sid))"

text \<open>The stream exists and \<open>close()\<close> was called on it.\<close>

definition is_closed :: "state \<Rightarrow> nat \<Rightarrow> bool" where
  "is_closed s sid = (sid < length (streams s) \<and> closed (streams s ! sid))"

text \<open>
  The invariant of a session whose timer has deadline \<open>D\<close>: either the timer is pending and
  the clock has not reached \<open>D\<close>, or the clock has reached \<open>D\<close> and the manager is idle.
\<close>

definition on_schedule :: "nat \<Rightarrow> state \<Rightarrow> bool" where
  "on_schedule D s =
     (microtasks s = [] \<and>
      (D \<in> set (timers s) \<and> now s < D
       \<or> D \<le> now s \<and> eventSource s = None \<and> suggestionCallbacks s = Map.empty))"

text \<open>
  The jobs of either class use the settled value of the promise only to tell a stream
  from an error; \<open>settle\<close> forgets which error it was.
\<close>

fun settle :: "error + nat \<Rightarrow> nat option" where
  "settle (Inl e) = None"
| "settle (Inr es) = Some es"

text \<open>
  What the job of a call does to the state, by class: the frontend's job, the mobile's
  \<open>.then\<close> job, and the mobile's \<open>.catch\<close> job (\<open>True\<close> when the promise was rejected).
\<close>

fun resume_effect :: "string \<times> nat option \<Rightarrow> state \<Rightarrow> state" where
  "resume_effect (tid, None) s = stopSuggestionStream s"
| "resume_effect (tid, Some es) s = startSuggestionStream_resume tid (Inr es) s"

fun then_effect :: "string \<times> nat option \<Rightarrow> state \<Rightarrow> state" where
  "then_effect (tid, None) s = s"
| "then_effect (tid, Some es) s = startSuggestionStream_resume tid (Inr es) s"

fun catch_effect :: "bool \<Rightarrow> state \<Rightarrow> state" where
  "catch_effect True s = stopSuggestionStream s"
| "catch_effect False s = s"

text \<open>The job queue of a frontend manager and of a mobile manager between two tasks' jobs.\<close>

definition await_jobs :: "(string \<times> (error + nat)) list \<Rightarrow> microtask list" where
  "await_jobs ps = map (\<lambda>(tid, p). Await_resume tid p) ps"

definition then_jobs :: "(string \<times> (error + nat)) list \<Rightarrow> microtask list" where
  "then_jobs ps = map (\<lambda>(tid, p). Then_reaction tid p) ps"

definition settled :: "(string \<times> (error + nat)) list \<Rightarrow> (string \<times> nat option) list" where
  "settled ps = map (\<lambda>(tid, p). (tid, settle p)) ps"

text \<open>What a call of \<open>startSuggestionStream\<close> does before it queues its job; the same in both classes.\<close>

definition call_effect :: "string \<Rightarrow> callback \<Rightarrow> runtime \<Rightarrow> state \<Rightarrow> state" where
  "call_effect tid cb rt s =
     (let s1 = s\<lparr>suggestionCallbacks := (suggestionCallbacks s)(tid \<mapsto> cb)\<rparr>;
          s2 = (case eventSource s1 of None \<Rightarrow> s1 | Some es \<Rightarrow> close es s1)
      in snd (new_EventSource rt tid s2))"

text \<open>A state with its job queue left out, to compare the states of the two classes.\<close>

definition forget_jobs :: "state \<Rightarrow> state" where
  "forget_jobs s = s\<lparr>microtasks := []\<rparr>"

text \<open>
  In a queue of settled calls the failed ones come last. Two managers, one of each
  class, mirror each other when their queues hold the same calls with the same outcomes,
  failed ones last, and they agree on everything else; \<open>pending\<close> says whether a failed
  call may be in the queue.
\<close>

fun fails_last :: "(string \<times> nat option) list \<Rightarrow> bool" where
  "fails_last [] = True"
| "fails_last ((tid, Some es) # ks) = fails_last ks"
| "fails_last ((tid, None) # ks) = list_all (\<lambda>k. snd k = None) ks"

definition mirrored :: "bool \<Rightarrow> state \<Rightarrow> state \<Rightarrow> bool" where
  "mirrored pending sf sm =
     (\<exists>psf psm.
        microtasks sf = await_jobs psf \<and> microtasks sm = then_jobs psm \<and>
        settled psf = settled psm \<and> fails_last (settled psf) \<and>
        (pending \<or> list_all (\<lambda>k. snd k \<noteq> None) (settled psf)) \<and>
        forget_jobs sf = forget_jobs sm)"

fun admissible :: "bool \<Rightarrow> input \<Rightarrow> bool" where
  "admissible pending (Start tid cb rt) = (rt = Constructs \<longrightarrow> \<not> pending)"
| "admissible pending e = True"

fun next_pending :: "bool \<Rightarrow> input \<Rightarrow> bool" where
  "next_pending pending (Start tid cb rt) = (rt \<noteq> Constructs \<or> pending)"
| "next_pending pending Stop = pending"
| "next_pending pending e = False"

text \<open>The stream exists, and it is closed or it is the one the manager holds.\<close>

definition held_or_closed :: "nat \<Rightarrow> state \<Rightarrow> bool" where
  "held_or_closed n s = (n < length (streams s) \<and> (closed (streams s ! n) \<or> eventSource s = Some n))"

text \<open>
  The job queue of a frontend manager and of a mobile manager whose last call of
  \<open>startSuggestionStream\<close> in the running task got a rejected promise.
\<close>

definition failed_last_frontend :: "state \<Rightarrow> bool" where
  "failed_last_frontend s =
     (\<exists>ps. microtasks s = await_jobs ps \<and> ps \<noteq> [] \<and> snd (last (settled ps)) = None)"

definition failed_last_mobile :: "state \<Rightarrow> bool" where
  "failed_last_mobile s =
     (\<exists>ps. microtasks s = then_jobs ps \<and> ps \<noteq> [] \<and> snd (last (settled ps)) = None)"

section \<open>Basic facts\<close>

text \<open>What the operations leave alone.\<close>

lemma update_stream_fields [simp]:
  "eventSource (update_stream sid f s) = eventSource s"
  "suggestionCallbacks (update_stream sid f s) = suggestionCallbacks s"
  "timers (update_stream sid f s) = timers s"
  "now (update_stream sid f s) = now s"
  "microtasks (update_stream sid f s) = microtasks s"
  "invoked (update_stream sid f s) = invoked s"
  "length (streams (update_stream sid f s)) = length (streams s)"
  by (simp_all add: update_stream_def)

lemma close_fields [simp]:
  "eventSource (close sid s) = eventSource s"
  "suggestionCallbacks (close sid s) = suggestionCallbacks s"
  "timers (close sid s) = timers s"
  "now (close sid s) = now s"
  "microtasks (close sid s) = microtasks s"
  "invoked (close sid s) = invoked s"
  "length (streams (close sid s)) = length (streams s)"
  by (simp_all add: close_def)

lemma setTimeout_fields [simp]:
  "eventSource (setTimeout d s) = eventSource s"
  "suggestionCallbacks (setTimeout d s) = suggestionCallbacks s"
  "streams (setTimeout d s) = streams s"
  "timers (setTimeout d s) = timers s @ [now s + d]"
  "now (setTimeout d s) = now s"
  "microtasks (setTimeout d s) = microtasks s"
  "invoked (setTimeout d s) = invoked s"
  by (simp_all add: setTimeout_def)

lemma stopSuggestionStream_fields [simp]:
  "eventSource (stopSuggestionStream s) = None"
  "suggestionCallbacks (stopSuggestionStream s) = Map.empty"
  "timers (stopSuggestionStream s) = timers s"
  "now (stopSuggestionStream s) = now s"
  "microtasks (stopSuggestionStream s) = microtasks s"
  "invoked (stopSuggestionStream s) = invoked s"
  "length (streams (stopSuggestionStream s)) = length (streams s)"
  by (simp_all add: stopSuggestionStream_def split: option.splits)

lemma stopSuggestionStream_mobile_eq: "stopSuggestionStream_mobile = stopSuggestionStream"
  by (rule ext) (simp add: stopSuggestionStream_mobile_def stopSuggestionStream_def)

lemma startSuggestionStream_resume_fields [simp]:
  "timers (startSuggestionStream_resume tid p s) =
     (case p of Inl e \<Rightarrow> timers s | Inr es \<Rightarrow> timers s @ [now s + 15000])"
  "now (startSuggestionStream_resume tid p s) = now s"
  "microtasks (startSuggestionStream_resume tid p s) = microtasks s"
  "invoked (startSuggestionStream_resume tid p s) = invoked s"
  "length (streams (startSuggestionStream_resume tid p s)) = length (streams s)"
  by (simp_all add: startSuggestionStream_resume_def split: sum.splits)

lemma then_callback_mobile_eq:
  "then_callback_mobile tid es s = startSuggestionStream_resume tid (Inr es) s"
  by (simp add: then_callback_mobile_def startSuggestionStream_resume_def)

lemma drain_Nil [simp]: "microtasks s = [] \<Longrightarrow> drain s = s"
  by (subst drain.simps) simp

lemma drain_Cons [simp]:
  "microtasks s = job # rest \<Longrightarrow> drain s = drain (run_microtask job (s\<lparr>microtasks := rest\<rparr>))"
  by (subst drain.simps) simp

lemmas eval_defs =
  run_def run_mobile_def init_def startSuggestionStream_def startSuggestionStream_mobile_def
  getSuggestions_def getSuggestions_mobile_def call_getSuggestions_mobile_def new_EventSource_def
  startSuggestionStream_resume_def then_callback_mobile_def stopSuggestionStream_def
  stopSuggestionStream_mobile_def update_stream_def close_def setTimeout_def
  message_listener_def error_listener_def onmessage_frontend_def onmessage_mobile_def advance_def

lemma onmessage_mobile_eq: "onmessage_mobile = onmessage_frontend"
  unfolding onmessage_mobile_def onmessage_frontend_def stopSuggestionStream_mobile_eq
  by (rule refl)

lemma startSuggestionStream_fields [simp]:
  "eventSource (startSuggestionStream tid cb rt s) = eventSource s"
  "suggestionCallbacks (startSuggestionStream tid cb rt s) = (suggestionCallbacks s)(tid \<mapsto> cb)"
  "timers (startSuggestionStream tid cb rt s) = timers s"
  "now (startSuggestionStream tid cb rt s) = now s"
  "invoked (startSuggestionStream tid cb rt s) = invoked s"
  by (simp_all add: startSuggestionStream_def getSuggestions_def new_EventSource_def Let_def
        split: option.splits runtime.splits)

lemma startSuggestionStream_mobile_fields [simp]:
  "eventSource (startSuggestionStream_mobile tid cb rt s) = eventSource s"
  "suggestionCallbacks (startSuggestionStream_mobile tid cb rt s) = (suggestionCallbacks s)(tid \<mapsto> cb)"
  "timers (startSuggestionStream_mobile tid cb rt s) = timers s"
  "now (startSuggestionStream_mobile tid cb rt s) = now s"
  "invoked (startSuggestionStream_mobile tid cb rt s) = invoked s"
  by (simp_all add: startSuggestionStream_mobile_def call_getSuggestions_mobile_def
        getSuggestions_mobile_def new_EventSource_def Let_def
        split: option.splits runtime.splits)

lemma onmessage_frontend_fields [simp]:
  "timers (onmessage_frontend via tid raw s) = timers s"
  "now (onmessage_frontend via tid raw s) = now s"
  "microtasks (onmessage_frontend via tid raw s) = microtasks s"
  "length (streams (onmessage_frontend via tid raw s)) = length (streams s)"
  by (simp_all add: onmessage_frontend_def Let_def split: sum.splits option.splits)

lemma run_microtask_fields [simp]:
  "now (run_microtask job s) = now s"
  "invoked (run_microtask job s) = invoked s"
  "length (streams (run_microtask job s)) = length (streams s)"
  by (induction job s rule: run_microtask.induct)
     (simp_all add: stopSuggestionStream_mobile_eq then_callback_mobile_eq)

lemma run_microtask_timers: "\<exists>new. timers (run_microtask job s) = timers s @ new"
  by (induction job s rule: run_microtask.induct)
     (simp_all add: stopSuggestionStream_mobile_eq then_callback_mobile_eq split: sum.splits)

lemma drain_relates:
  assumes refl: "\<And>s. R s s"
    and trans: "\<And>s t u. R s t \<Longrightarrow> R t u \<Longrightarrow> R s u"
    and job: "\<And>job s. R s (run_microtask job s)"
    and queue: "\<And>s q. R s (s\<lparr>microtasks := q\<rparr>)"
  shows "R s (drain s)"
proof (induction s rule: drain.induct)
  case (1 s)
  show ?case
  proof (cases "microtasks s")
    case Nil
    then show ?thesis by (simp add: refl)
  next
    case (Cons j rest)
    have "R s (run_microtask j (s\<lparr>microtasks := rest\<rparr>))"
      using trans [OF queue job] .
    from trans [OF this 1 [OF Cons]] show ?thesis using Cons by simp
  qed
qed

lemma drain_microtasks [simp]: "microtasks (drain s) = []"
proof (induction s rule: drain.induct)
  case (1 s)
  then show ?case by (cases "microtasks s") simp_all
qed

lemma drain_fields [simp]:
  "now (drain s) = now s"
  "invoked (drain s) = invoked s"
  "length (streams (drain s)) = length (streams s)"
proof -
  show "now (drain s) = now s"
    by (rule drain_relates [where R = "\<lambda>s t. now t = now s"]) simp_all
  show "invoked (drain s) = invoked s"
    by (rule drain_relates [where R = "\<lambda>s t. invoked t = invoked s"]) simp_all
  show "length (streams (drain s)) = length (streams s)"
    by (rule drain_relates [where R = "\<lambda>s t. length (streams t) = length (streams s)"]) simp_all
qed

lemma drain_timers: "\<exists>new. timers (drain s) = timers s @ new"
proof (rule drain_relates [where R = "\<lambda>s t. \<exists>new. timers t = timers s @ new"])
  fix s t u :: state
  assume "\<exists>new. timers t = timers s @ new" "\<exists>new. timers u = timers t @ new"
  then show "\<exists>new. timers u = timers s @ new" by auto
qed (simp_all add: run_microtask_timers)

lemma stop_twice [simp]: "stopSuggestionStream (stopSuggestionStream s) = stopSuggestionStream s"
  by (simp add: stopSuggestionStream_def split: option.splits)

lemma stop_idle: "eventSource s = None \<Longrightarrow> suggestionCallbacks s = Map.empty \<Longrightarrow> stopSuggestionStream s = s"
  by (simp add: stopSuggestionStream_def)

lemma fold_stop_fields [simp]:
  "timers (fold (\<lambda>x. stopSuggestionStream) xs s) = timers s"
  "now (fold (\<lambda>x. stopSuggestionStream) xs s) = now s"
  "invoked (fold (\<lambda>x. stopSuggestionStream) xs s) = invoked s"
  "microtasks (fold (\<lambda>x. stopSuggestionStream) xs s) = microtasks s"
  by (induction xs arbitrary: s) simp_all

lemma fold_stop_stop [simp]:
  "fold (\<lambda>x. stopSuggestionStream) xs (stopSuggestionStream s) = stopSuggestionStream s"
  by (induction xs) simp_all

lemma fold_stop_nonempty:
  "xs \<noteq> [] \<Longrightarrow> fold (\<lambda>x. stopSuggestionStream) xs s = stopSuggestionStream s"
  by (cases xs) simp_all

lemma stop_mobile_simps [simp]: "stopSuggestionStream_mobile s = stopSuggestionStream s"
  by (simp add: stopSuggestionStream_mobile_eq)

lemma run_simps [simp]:
  "run [] s = s"
  "run (e # ins) s = run ins (step e s)"
  "run_mobile [] s = s"
  "run_mobile (e # ins) s = run_mobile ins (step_mobile e s)"
  by (simp_all add: run_def run_mobile_def)

lemma run_append: "run (xs @ ys) s = run ys (run xs s)"
  by (simp add: run_def)

lemma run_mobile_append: "run_mobile (xs @ ys) s = run_mobile ys (run_mobile xs s)"
  by (simp add: run_mobile_def)

lemma run_replicate_Stop: "run (replicate n Stop) (stopSuggestionStream s) = stopSuggestionStream s"
  by (induction n) simp_all

lemma run_mobile_replicate_Stop:
  "run_mobile (replicate n Stop) (stopSuggestionStream s) = stopSuggestionStream s"
  by (induction n) simp_all

lemma startSuggestionStream_resume_class_fields [simp]:
  "suggestionCallbacks (startSuggestionStream_resume tid p s) =
     (case p of Inl e \<Rightarrow> Map.empty | Inr es \<Rightarrow> suggestionCallbacks s)"
  "eventSource (startSuggestionStream_resume tid p s) =
     (case p of Inl e \<Rightarrow> None | Inr es \<Rightarrow> Some es)"
  by (simp_all add: startSuggestionStream_resume_def split: sum.splits)

lemma run_microtask_registry:
  "suggestionCallbacks (run_microtask job s) = suggestionCallbacks s
   \<or> suggestionCallbacks (run_microtask job s) = Map.empty"
  by (induction job s rule: run_microtask.induct)
     (simp_all add: then_callback_mobile_eq split: sum.splits)

lemma drain_registry:
  "suggestionCallbacks (drain s) = suggestionCallbacks s \<or> suggestionCallbacks (drain s) = Map.empty"
  by (rule drain_relates [where R = "\<lambda>s t. suggestionCallbacks t = suggestionCallbacks s
        \<or> suggestionCallbacks t = Map.empty"])
     (auto simp: run_microtask_registry)

lemma onmessage_frontend_registry:
  "suggestionCallbacks (onmessage_frontend via tid raw s) = suggestionCallbacks s
   \<or> suggestionCallbacks (onmessage_frontend via tid raw s) = Map.empty"
  by (simp add: onmessage_frontend_def Let_def split: sum.splits option.splits)

lemma advance_stop_fields [simp]:
  "timers (advance stopSuggestionStream d s) = filter (\<lambda>deadline. now s + d < deadline) (timers s)"
  "now (advance stopSuggestionStream d s) = now s + d"
  "invoked (advance stopSuggestionStream d s) = invoked s"
  "microtasks (advance stopSuggestionStream d s) = microtasks s"
  by (simp_all add: advance_def Let_def not_le)

lemma advance_stop_due:
  assumes "deadline \<in> set (timers s)" "deadline \<le> now s + d"
  shows "advance stopSuggestionStream d s =
           stopSuggestionStream (s\<lparr>now := now s + d,
              timers := filter (\<lambda>deadline. \<not> deadline \<le> now s + d) (timers s)\<rparr>)"
proof -
  from assms have "filter (\<lambda>deadline. deadline \<le> now s + d) (timers s) \<noteq> []"
    by (auto simp: filter_empty_conv)
  then show ?thesis by (simp add: advance_def Let_def fold_stop_nonempty)
qed

lemma advance_stop_not_due:
  assumes "\<forall>deadline \<in> set (timers s). now s + d < deadline"
  shows "advance stopSuggestionStream d s = s\<lparr>now := now s + d\<rparr>"
proof -
  from assms have "filter (\<lambda>deadline. deadline \<le> now s + d) (timers s) = []"
    by (auto simp: filter_empty_conv)
  moreover from assms have "filter (\<lambda>deadline. \<not> deadline \<le> now s + d) (timers s) = timers s"
    by (auto simp: filter_id_conv)
  ultimately show ?thesis by (simp add: advance_def Let_def)
qed

lemma advance_stop_registry:
  "suggestionCallbacks (advance stopSuggestionStream d s) = suggestionCallbacks s
   \<or> suggestionCallbacks (advance stopSuggestionStream d s) = Map.empty"
proof (cases "filter (\<lambda>deadline. deadline \<le> now s + d) (timers s)")
  case Nil
  then show ?thesis by (simp add: advance_def Let_def)
next
  case (Cons a list)
  then show ?thesis by (simp add: advance_def Let_def)
qed

lemma kept_or_cleared_trans:
  "y = x \<or> y = e \<Longrightarrow> z = y \<or> z = e \<Longrightarrow> z = x \<or> z = e"
  by auto

lemma step_registry:
  "(case e of
      Start threadId cb rt \<Rightarrow>
        suggestionCallbacks (step e s) = (suggestionCallbacks s)(threadId \<mapsto> cb)
    | Stop \<Rightarrow> suggestionCallbacks (step e s) = Map.empty
    | _ \<Rightarrow> suggestionCallbacks (step e s) = suggestionCallbacks s
          \<or> suggestionCallbacks (step e s) = Map.empty)"
proof (cases e)
  case (Message sid raw)
  have "suggestionCallbacks (step (Message sid raw) s) = suggestionCallbacks (drain s)
        \<or> suggestionCallbacks (step (Message sid raw) s) = Map.empty"
    by (cases "message_listener (drain s) sid") (simp_all add: onmessage_frontend_registry)
  from kept_or_cleared_trans [OF drain_registry this] show ?thesis by (simp add: Message)
next
  case (Stream_error sid)
  have "suggestionCallbacks (step (Stream_error sid) s) = suggestionCallbacks (drain s)
        \<or> suggestionCallbacks (step (Stream_error sid) s) = Map.empty"
    by (simp add: Let_def)
  from kept_or_cleared_trans [OF drain_registry this] show ?thesis by (simp add: Stream_error)
next
  case (Advance d)
  have "suggestionCallbacks (step (Advance d) s) = suggestionCallbacks (drain s)
        \<or> suggestionCallbacks (step (Advance d) s) = Map.empty"
    by (simp add: advance_stop_registry)
  from kept_or_cleared_trans [OF drain_registry this] show ?thesis by (simp add: Advance)
qed (simp_all add: drain_registry)

lemma step_timers:
  "\<exists>new. timers (step e s) =
     (case e of
        Advance d \<Rightarrow> filter (\<lambda>deadline. now s + d < deadline) (timers s @ new)
      | _ \<Rightarrow> timers s @ new)"
proof (cases e)
  case (Message sid raw)
  then show ?thesis using drain_timers [of s] by (auto simp: Let_def split: option.splits)
next
  case (Stream_error sid)
  then show ?thesis using drain_timers [of s] by (auto simp: Let_def)
next
  case (Advance d)
  obtain new where "timers (drain s) = timers s @ new" using drain_timers [of s] by blast
  then show ?thesis unfolding Advance by (intro exI [of _ new]) simp
qed (use drain_timers [of s] in auto)

lemma due_timer_tears_down:
  assumes "deadline \<in> set (timers s)" "deadline \<le> now s + d"
  shows "eventSource (step (Advance d) s) = None"
    and "suggestionCallbacks (step (Advance d) s) = Map.empty"
proof -
  obtain new where "timers (drain s) = timers s @ new" using drain_timers [of s] by blast
  with assms have "deadline \<in> set (timers (drain s))" "deadline \<le> now (drain s) + d" by simp_all
  from advance_stop_due [OF this]
  show "eventSource (step (Advance d) s) = None"
    and "suggestionCallbacks (step (Advance d) s) = Map.empty" by simp_all
qed

lemma step_mobile_eq:
  "step_mobile Stop s = step Stop s"
  "step_mobile Yield s = step Yield s"
  "step_mobile (Message sid raw) s = step (Message sid raw) s"
  "step_mobile (Stream_error sid) s = step (Stream_error sid) s"
  "step_mobile (Advance d) s = step (Advance d) s"
  unfolding step.simps step_mobile.simps onmessage_mobile_eq stopSuggestionStream_mobile_eq
  by (rule refl)+

lemma step_mobile_registry:
  "(case e of
      Start threadId cb rt \<Rightarrow>
        suggestionCallbacks (step_mobile e s) = (suggestionCallbacks s)(threadId \<mapsto> cb)
    | Stop \<Rightarrow> suggestionCallbacks (step_mobile e s) = Map.empty
    | _ \<Rightarrow> suggestionCallbacks (step_mobile e s) = suggestionCallbacks s
          \<or> suggestionCallbacks (step_mobile e s) = Map.empty)"
  using step_registry [of e s] by (cases e) (simp_all only: step_mobile_eq input.case, simp_all)

subsection \<open>A closed stream stays closed and silent\<close>

lemma is_closed_update_stream:
  assumes "is_closed s sid" "\<And>x. closed x \<Longrightarrow> closed (f x)"
  shows "is_closed (update_stream sid' f s) sid"
  using assms by (auto simp: is_closed_def update_stream_def nth_list_update)

lemma is_closed_close: "is_closed s sid \<Longrightarrow> is_closed (close sid' s) sid"
  unfolding close_def by (rule is_closed_update_stream) simp_all

lemma is_closed_stop: "is_closed s sid \<Longrightarrow> is_closed (stopSuggestionStream s) sid"
proof (cases "eventSource s")
  case None
  assume "is_closed s sid"
  with None show ?thesis by (simp add: stopSuggestionStream_def is_closed_def)
next
  case (Some es)
  assume "is_closed s sid"
  from is_closed_close [OF this, of es] Some show ?thesis
    by (simp add: stopSuggestionStream_def is_closed_def)
qed

lemma is_closed_resume:
  "is_closed s sid \<Longrightarrow> is_closed (startSuggestionStream_resume tid p s) sid"
proof (cases p)
  case (Inl e)
  assume "is_closed s sid"
  with Inl show ?thesis by (simp add: startSuggestionStream_resume_def is_closed_stop)
next
  case (Inr es)
  assume "is_closed s sid"
  then have "is_closed (s\<lparr>eventSource := Some es\<rparr>) sid" by (simp add: is_closed_def)
  then have "is_closed (update_stream es (\<lambda>x. x\<lparr>onmessage := Some tid\<rparr>) (s\<lparr>eventSource := Some es\<rparr>)) sid"
    by (rule is_closed_update_stream) simp
  then have "is_closed (update_stream es (\<lambda>x. x\<lparr>onerror := True\<rparr>)
      (update_stream es (\<lambda>x. x\<lparr>onmessage := Some tid\<rparr>) (s\<lparr>eventSource := Some es\<rparr>))) sid"
    by (rule is_closed_update_stream) simp
  then show ?thesis by (simp add: Inr startSuggestionStream_resume_def is_closed_def)
qed

lemma is_closed_run_microtask: "is_closed s sid \<Longrightarrow> is_closed (run_microtask job s) sid"
proof (induction job s rule: run_microtask.induct)
  case (1 threadId p s)
  then show ?case by (simp add: is_closed_resume)
next
  case (2 threadId es s)
  from is_closed_resume [OF 2, of threadId "Inr es"] show ?case
    by (simp add: then_callback_mobile_eq is_closed_def)
next
  case (3 threadId e s)
  then show ?case by (simp add: is_closed_def)
next
  case (4 e s)
  then show ?case by (simp add: is_closed_stop)
next
  case (5 s)
  then show ?case by simp
qed

lemma is_closed_drain: "is_closed s sid \<Longrightarrow> is_closed (drain s) sid"
  by (rule drain_relates [where R = "\<lambda>s t. is_closed s sid \<longrightarrow> is_closed t sid", rule_format])
     (simp_all add: is_closed_run_microtask, simp add: is_closed_def)

lemma is_closed_start:
  assumes "is_closed s sid"
  shows "is_closed (startSuggestionStream tid cb rt s) sid"
proof -
  let ?s1 = "s\<lparr>suggestionCallbacks := (suggestionCallbacks s)(tid \<mapsto> cb)\<rparr>"
  let ?s2 = "case eventSource ?s1 of None \<Rightarrow> ?s1 | Some es \<Rightarrow> close es ?s1"
  from assms have "is_closed ?s1 sid" by (simp add: is_closed_def)
  then have "is_closed ?s2 sid" by (auto split: option.splits intro: is_closed_close)
  then show ?thesis
    by (cases rt)
       (simp_all add: startSuggestionStream_def getSuggestions_def new_EventSource_def
          is_closed_def nth_append Let_def)
qed

lemma is_closed_fold_stop:
  "is_closed s sid \<Longrightarrow> is_closed (fold (\<lambda>x. stopSuggestionStream) xs s) sid"
  by (induction xs arbitrary: s) (simp_all add: is_closed_stop)

lemma is_closed_advance: "is_closed s sid \<Longrightarrow> is_closed (advance stopSuggestionStream d s) sid"
  unfolding advance_def Let_def by (rule is_closed_fold_stop) (simp add: is_closed_def)

text \<open>What one run of the \<open>onmessage\<close> handler does to the state.\<close>

lemma onmessage_frontend_cases:
  "onmessage_frontend via tid raw s = s
   \<or> onmessage_frontend via tid raw s = stopSuggestionStream s
   \<or> (\<exists>cb data. suggestionCallbacks s tid = Some cb \<and> JSON_parse raw = Inr data \<and>
        (onmessage_frontend via tid raw s = s\<lparr>invoked := invoked s @ [(via, cb_name cb, data)]\<rparr>
         \<or> onmessage_frontend via tid raw s =
              stopSuggestionStream (s\<lparr>invoked := invoked s @ [(via, cb_name cb, data)]\<rparr>)))"
  by (simp add: onmessage_frontend_def Let_def split: sum.splits option.splits)

lemma is_closed_onmessage:
  assumes "is_closed s sid"
  shows "is_closed (onmessage_frontend via tid raw s) sid"
proof -
  have logged: "is_closed (s\<lparr>invoked := x\<rparr>) sid" for x
    using assms by (simp add: is_closed_def)
  from onmessage_frontend_cases [of via tid raw s] show ?thesis
    using assms logged is_closed_stop [OF assms] is_closed_stop [OF logged]
    by (elim disjE exE conjE) simp_all
qed

lemma invoked_onmessage:
  "\<exists>new. invoked (onmessage_frontend via tid raw s) = invoked s @ new \<and> (\<forall>entry \<in> set new. fst entry = via)"
  using onmessage_frontend_cases [of via tid raw s]
  by (elim disjE exE conjE) auto

lemma message_listener_open: "message_listener s sid = Some tid \<Longrightarrow> \<not> is_closed s sid"
  by (simp add: message_listener_def is_closed_def split: if_splits)

lemma is_closed_step: "is_closed s sid \<Longrightarrow> is_closed (step e s) sid"
  by (cases e)
     (auto simp: Let_def is_closed_start is_closed_stop is_closed_drain is_closed_onmessage
        is_closed_advance split: option.splits)

lemma invoked_step:
  assumes "is_closed s sid"
  shows "\<exists>new. invoked (step e s) = invoked s @ new \<and> (\<forall>entry \<in> set new. fst entry \<noteq> sid)"
proof (cases e)
  case (Message via raw)
  show ?thesis
  proof (cases "message_listener (drain s) via")
    case None
    then show ?thesis by (simp add: Message)
  next
    case (Some tid)
    from message_listener_open [OF Some] is_closed_drain [OF assms] have "via \<noteq> sid" by auto
    with invoked_onmessage [of via tid raw "drain s"] show ?thesis
      by (auto simp: Message Some)
  qed
qed (simp_all add: Let_def)

lemma invoked_run:
  assumes "is_closed s sid"
  shows "\<exists>new. invoked (run ins s) = invoked s @ new \<and> (\<forall>entry \<in> set new. fst entry \<noteq> sid)"
  using assms
proof (induction ins arbitrary: s)
  case Nil
  then show ?case by simp
next
  case (Cons e ins)
  from invoked_step [OF Cons.prems, of e] obtain new1 where
    1: "invoked (step e s) = invoked s @ new1" "\<forall>entry \<in> set new1. fst entry \<noteq> sid" by blast
  from Cons.IH [OF is_closed_step [OF Cons.prems, of e]] obtain new2 where
    2: "invoked (run ins (step e s)) = invoked (step e s) @ new2"
       "\<forall>entry \<in> set new2. fst entry \<noteq> sid" by blast
  from 1 2 have "invoked (run (e # ins) s) = invoked s @ (new1 @ new2)
     \<and> (\<forall>entry \<in> set (new1 @ new2). fst entry \<noteq> sid)" by auto
  then show ?case by blast
qed

lemma final_message_step:
  assumes "microtasks s = []" "message_listener s sid = Some threadId"
    and "suggestionCallbacks s threadId = Some cb" "\<not> cb_throws cb data"
    and "get_final data = Inr v" "truthy v"
  shows "step (Message sid (Parseable data)) s =
           stopSuggestionStream (s\<lparr>invoked := invoked s @ [(sid, cb_name cb, data)]\<rparr>)"
  using assms by (simp add: onmessage_frontend_def)

lemma is_closed_after_stop:
  assumes "eventSource s = Some sid" "sid < length (streams s)"
  shows "is_closed (stopSuggestionStream s) sid"
  using assms by (simp add: stopSuggestionStream_def is_closed_def close_def update_stream_def)

subsection \<open>Sessions that nothing ends\<close>

lemma startSuggestionStream_microtasks:
  "microtasks (startSuggestionStream tid cb Constructs s) =
     microtasks s @ [Await_resume tid (Inr (length (streams s)))]"
  by (simp add: startSuggestionStream_def getSuggestions_def new_EventSource_def Let_def
        split: option.splits)

lemma run_microtask_microtasks: "\<exists>extra. microtasks (run_microtask job s) = microtasks s @ extra"
  by (induction job s rule: run_microtask.induct) (simp_all add: then_callback_mobile_eq)

lemma pending_resume_arms_timer:
  "Await_resume tid (Inr es) \<in> set (microtasks s) \<Longrightarrow> now s + 15000 \<in> set (timers (drain s))"
proof (induction s rule: drain.induct)
  case (1 s)
  from "1.prems" obtain job rest where q: "microtasks s = job # rest"
    by (cases "microtasks s") auto
  let ?t = "run_microtask job (s\<lparr>microtasks := rest\<rparr>)"
  show ?case
  proof (cases "job = Await_resume tid (Inr es)")
    case True
    then have "now s + 15000 \<in> set (timers ?t)" by simp
    moreover obtain new where "timers (drain ?t) = timers ?t @ new"
      using drain_timers [of ?t] by blast
    ultimately show ?thesis using q by simp
  next
    case False
    with "1.prems" q have "Await_resume tid (Inr es) \<in> set rest" by auto
    moreover obtain extra where "microtasks ?t = rest @ extra"
      using run_microtask_microtasks [of job "s\<lparr>microtasks := rest\<rparr>"] by auto
    ultimately have "Await_resume tid (Inr es) \<in> set (microtasks ?t)" by simp
    from "1.IH" [OF q this] show ?thesis using q by simp
  qed
qed

lemma nonfinal_message_fields:
  assumes "\<not> carries_final raw"
  shows "eventSource (onmessage_frontend via tid raw s) = eventSource s"
    and "suggestionCallbacks (onmessage_frontend via tid raw s) = suggestionCallbacks s"
  using assms
  by (simp_all add: carries_final_def onmessage_frontend_def Let_def split: sum.splits option.splits)

lemma on_schedule_step:
  assumes "on_schedule D s" "\<not> terminating e"
  shows "on_schedule D (step e s)"
proof (cases e)
  case Yield
  with assms show ?thesis by (simp add: on_schedule_def)
next
  case (Message sid raw)
  with assms(2) have nf: "\<not> carries_final raw" by simp
  from assms(1) have q: "microtasks s = []" by (simp add: on_schedule_def)
  show ?thesis
  proof (cases "message_listener s sid")
    case None
    with assms q show ?thesis by (simp add: Message)
  next
    case (Some tid)
    with assms(1) q show ?thesis
      by (simp add: Message on_schedule_def nonfinal_message_fields [OF nf])
  qed
next
  case (Advance d)
  from assms(1) have q: "microtasks s = []" by (simp add: on_schedule_def)
  show ?thesis
  proof (cases "D \<le> now s + d")
    case True
    show ?thesis
    proof (cases "D \<in> set (timers s)")
      case True
      from advance_stop_due [OF True \<open>D \<le> now s + d\<close>] q \<open>D \<le> now s + d\<close> show ?thesis
        by (simp add: Advance on_schedule_def)
    next
      case False
      with assms(1) have idle: "D \<le> now s" "eventSource s = None" "suggestionCallbacks s = Map.empty"
        by (simp_all add: on_schedule_def)
      have "eventSource (advance stopSuggestionStream d s) = None
            \<and> suggestionCallbacks (advance stopSuggestionStream d s) = Map.empty"
      proof (cases "filter (\<lambda>deadline. deadline \<le> now s + d) (timers s)")
        case Nil
        with idle show ?thesis by (simp add: advance_def Let_def)
      next
        case (Cons a list)
        then show ?thesis by (simp add: advance_def Let_def)
      qed
      with q idle show ?thesis by (simp add: Advance on_schedule_def)
    qed
  next
    case False
    with assms(1) have "D \<in> set (timers s)" "now s < D" by (auto simp: on_schedule_def)
    with q False show ?thesis by (simp add: Advance on_schedule_def)
  qed
qed (use assms in simp_all)

lemma on_schedule_run:
  "on_schedule D s \<Longrightarrow> \<forall>e \<in> set ins. \<not> terminating e \<Longrightarrow> on_schedule D (run ins s)"
  by (induction ins arbitrary: s) (simp_all add: on_schedule_step)

lemma on_schedule_started:
  "on_schedule (now s + 15000) (run [Start threadId cb Constructs, Yield] s)"
proof -
  let ?t = "startSuggestionStream threadId cb Constructs s"
  have "Await_resume threadId (Inr (length (streams s))) \<in> set (microtasks ?t)"
    by (simp add: startSuggestionStream_microtasks)
  from pending_resume_arms_timer [OF this] show ?thesis by (simp add: on_schedule_def)
qed

lemma timer_task_invokes_nothing: "invoked (step (Advance d) s) = invoked s"
  by simp

subsection \<open>What emptying the job queue amounts to\<close>

lemma update_stream_queue:
  "update_stream sid f (s\<lparr>microtasks := q\<rparr>) = (update_stream sid f s)\<lparr>microtasks := q\<rparr>"
  by (simp add: update_stream_def)

lemma stop_queue:
  "stopSuggestionStream (s\<lparr>microtasks := q\<rparr>) = (stopSuggestionStream s)\<lparr>microtasks := q\<rparr>"
  by (simp add: stopSuggestionStream_def close_def update_stream_queue split: option.splits)

lemma resume_queue:
  "startSuggestionStream_resume tid p (s\<lparr>microtasks := q\<rparr>) =
     (startSuggestionStream_resume tid p s)\<lparr>microtasks := q\<rparr>"
  by (cases p)
     (simp_all add: startSuggestionStream_resume_def stop_queue update_stream_def setTimeout_def
        Let_def)

lemma resume_effect_queue:
  "resume_effect k (s\<lparr>microtasks := q\<rparr>) = (resume_effect k s)\<lparr>microtasks := q\<rparr>"
proof -
  obtain tid r where "k = (tid, r)" by (cases k)
  then show ?thesis by (cases r) (simp_all add: stop_queue resume_queue)
qed

lemma then_effect_queue:
  "then_effect k (s\<lparr>microtasks := q\<rparr>) = (then_effect k s)\<lparr>microtasks := q\<rparr>"
proof -
  obtain tid r where "k = (tid, r)" by (cases k)
  then show ?thesis by (cases r) (simp_all add: resume_queue)
qed

lemma resume_effect_microtasks [simp]: "microtasks (resume_effect k s) = microtasks s"
proof -
  obtain tid r where "k = (tid, r)" by (cases k)
  then show ?thesis by (cases r) simp_all
qed

lemma then_effect_microtasks [simp]: "microtasks (then_effect k s) = microtasks s"
proof -
  obtain tid r where "k = (tid, r)" by (cases k)
  then show ?thesis by (cases r) simp_all
qed

lemma catch_effect_microtasks [simp]: "microtasks (catch_effect r s) = microtasks s"
  by (cases r) simp_all

lemma run_Await_resume:
  "run_microtask (Await_resume tid p) s = resume_effect (tid, settle p) s"
  by (cases p) (simp_all add: startSuggestionStream_resume_def)

lemma drain_await_jobs:
  "microtasks s = await_jobs ps \<Longrightarrow>
     drain s = fold resume_effect (settled ps) (s\<lparr>microtasks := []\<rparr>)"
proof (induction ps arbitrary: s)
  case Nil
  then show ?case by (simp add: await_jobs_def settled_def)
next
  case (Cons a ps)
  obtain tid p where a: "a = (tid, p)" by (cases a)
  let ?t = "resume_effect (tid, settle p) (s\<lparr>microtasks := await_jobs ps\<rparr>)"
  from Cons.prems a have q: "microtasks s = Await_resume tid p # await_jobs ps"
    by (simp add: await_jobs_def)
  have "drain s = drain (run_microtask (Await_resume tid p) (s\<lparr>microtasks := await_jobs ps\<rparr>))"
    using q by (rule drain_Cons)
  also have "\<dots> = drain ?t" by (simp only: run_Await_resume)
  also have "\<dots> = fold resume_effect (settled ps) (?t\<lparr>microtasks := []\<rparr>)"
    by (rule Cons.IH) simp
  also have "?t\<lparr>microtasks := []\<rparr> = resume_effect (tid, settle p) (s\<lparr>microtasks := []\<rparr>)"
    by (simp add: resume_effect_queue)
  finally show ?case by (simp add: a settled_def)
qed

lemma drain_catch_jobs:
  "microtasks s = map Catch_reaction cs \<Longrightarrow>
     drain s = fold catch_effect (map (\<lambda>c. c \<noteq> None) cs) (s\<lparr>microtasks := []\<rparr>)"
proof (induction cs arbitrary: s)
  case Nil
  then show ?case by simp
next
  case (Cons c cs)
  show ?case
  proof (cases c)
    case None
    with Cons.prems have "drain s = drain (s\<lparr>microtasks := map Catch_reaction cs\<rparr>)" by simp
    also have "\<dots> = fold catch_effect (map (\<lambda>c. c \<noteq> None) cs) (s\<lparr>microtasks := []\<rparr>)"
      using Cons.IH [of "s\<lparr>microtasks := map Catch_reaction cs\<rparr>"] by simp
    finally show ?thesis by (simp add: None)
  next
    case (Some e)
    let ?t = "stopSuggestionStream (s\<lparr>microtasks := map Catch_reaction cs\<rparr>)"
    from Cons.prems Some have "drain s = drain ?t" by simp
    also have "\<dots> = fold catch_effect (map (\<lambda>c. c \<noteq> None) cs) (?t\<lparr>microtasks := []\<rparr>)"
      by (rule Cons.IH) simp
    also have "?t\<lparr>microtasks := []\<rparr> = stopSuggestionStream (s\<lparr>microtasks := []\<rparr>)"
      by (simp add: stop_queue)
    finally show ?thesis by (simp add: Some)
  qed
qed

lemma drain_then_jobs:
  "microtasks s = then_jobs ps @ map Catch_reaction cs \<Longrightarrow>
     drain s =
       fold catch_effect (map (\<lambda>c. c \<noteq> None) cs @ map (\<lambda>k. snd k = None) (settled ps))
         (fold then_effect (settled ps) (s\<lparr>microtasks := []\<rparr>))"
proof (induction ps arbitrary: s cs)
  case Nil
  then show ?case by (simp add: then_jobs_def settled_def drain_catch_jobs)
next
  case (Cons a ps)
  obtain tid p where a: "a = (tid, p)" by (cases a)
  from Cons.prems a have q:
    "microtasks s = Then_reaction tid p # (then_jobs ps @ map Catch_reaction cs)"
    by (simp add: then_jobs_def)
  show ?case
  proof (cases p)
    case (Inl e)
    let ?t = "s\<lparr>microtasks := then_jobs ps @ map Catch_reaction (cs @ [Some e])\<rparr>"
    from q Inl have "drain s = drain ?t" by simp
    also have "\<dots> = fold catch_effect
        (map (\<lambda>c. c \<noteq> None) (cs @ [Some e]) @ map (\<lambda>k. snd k = None) (settled ps))
        (fold then_effect (settled ps) (?t\<lparr>microtasks := []\<rparr>))"
      by (rule Cons.IH) simp
    finally show ?thesis by (simp add: a Inl settled_def)
  next
    case (Inr es)
    let ?u = "startSuggestionStream_resume tid (Inr es) s"
    let ?t = "?u\<lparr>microtasks := then_jobs ps @ map Catch_reaction (cs @ [None])\<rparr>"
    from q Inr have "drain s = drain ?t"
      by (simp add: then_callback_mobile_eq resume_queue)
    also have "\<dots> = fold catch_effect
        (map (\<lambda>c. c \<noteq> None) (cs @ [None]) @ map (\<lambda>k. snd k = None) (settled ps))
        (fold then_effect (settled ps) (?t\<lparr>microtasks := []\<rparr>))"
      by (rule Cons.IH) simp
    also have "?t\<lparr>microtasks := []\<rparr> = startSuggestionStream_resume tid (Inr es) (s\<lparr>microtasks := []\<rparr>)"
      by (simp add: resume_queue)
    finally show ?thesis by (simp add: a Inr settled_def)
  qed
qed

subsection \<open>The two classes side by side\<close>

lemma startSuggestionStream_as_call_effect:
  "startSuggestionStream tid cb rt s =
     (call_effect tid cb rt s)\<lparr>microtasks := microtasks s @
        [Await_resume tid (fst (getSuggestions rt tid s))]\<rparr>"
  by (cases rt)
     (simp_all add: startSuggestionStream_def call_effect_def getSuggestions_def
        new_EventSource_def Let_def split: option.splits)

lemma startSuggestionStream_mobile_as_call_effect:
  "startSuggestionStream_mobile tid cb rt s =
     (call_effect tid cb rt s)\<lparr>microtasks := microtasks s @
        [Then_reaction tid (fst (getSuggestions_mobile rt tid s))]\<rparr>"
  by (cases rt)
     (simp_all add: startSuggestionStream_mobile_def call_effect_def call_getSuggestions_mobile_def
        getSuggestions_mobile_def new_EventSource_def Let_def split: option.splits)

lemma settle_getSuggestions:
  "settle (fst (getSuggestions rt tid s)) = (if rt = Constructs then Some (length (streams s)) else None)"
  "settle (fst (getSuggestions_mobile rt tid s)) = (if rt = Constructs then Some (length (streams s)) else None)"
  by (cases rt; simp add: getSuggestions_def getSuggestions_mobile_def new_EventSource_def)+

lemma close_queue: "close sid (s\<lparr>microtasks := q\<rparr>) = (close sid s)\<lparr>microtasks := q\<rparr>"
  by (simp add: close_def update_stream_queue)

lemma call_effect_queue:
  "call_effect tid cb rt (s\<lparr>microtasks := q\<rparr>) = (call_effect tid cb rt s)\<lparr>microtasks := q\<rparr>"
  by (cases rt)
     (simp_all add: call_effect_def new_EventSource_def Let_def close_def update_stream_def
        split: option.splits)

lemma forget_jobs_simps [simp]:
  "forget_jobs (s\<lparr>microtasks := q\<rparr>) = forget_jobs s"
  "microtasks (forget_jobs s) = []"
  "forget_jobs (forget_jobs s) = forget_jobs s"
  by (simp_all add: forget_jobs_def)

lemma forget_jobs_call_effect:
  "forget_jobs (call_effect tid cb rt s) = call_effect tid cb rt (forget_jobs s)"
  by (simp add: forget_jobs_def call_effect_queue)

lemma forget_jobs_stop:
  "forget_jobs (stopSuggestionStream s) = stopSuggestionStream (forget_jobs s)"
  by (simp add: forget_jobs_def stop_queue)

lemma forget_jobs_idle: "microtasks s = [] \<Longrightarrow> forget_jobs s = s"
  by (simp add: forget_jobs_def)

lemma fold_resume_all_failed:
  "list_all (\<lambda>k. snd k = None) ks \<Longrightarrow>
     fold resume_effect ks (stopSuggestionStream s) = stopSuggestionStream s"
  by (induction ks) auto

lemma fold_then_all_failed:
  "list_all (\<lambda>k. snd k = None) ks \<Longrightarrow> fold then_effect ks s = s"
  by (induction ks) auto

lemma fold_catch_all_failed:
  "list_all (\<lambda>k. snd k = None) ks \<Longrightarrow>
     fold catch_effect (map (\<lambda>k. snd k = None) ks) (stopSuggestionStream s) = stopSuggestionStream s"
  by (induction ks) auto

lemma fails_last_same_end:
  "fails_last ks \<Longrightarrow>
     fold resume_effect ks s =
       fold catch_effect (map (\<lambda>k. snd k = None) ks) (fold then_effect ks s)"
proof (induction ks arbitrary: s rule: fails_last.induct)
  case 1
  then show ?case by simp
next
  case (2 tid es ks)
  then show ?case by simp
next
  case (3 tid ks)
  then have "list_all (\<lambda>k. snd k = None) ks" by simp
  then show ?case
    by (simp add: fold_resume_all_failed fold_then_all_failed fold_catch_all_failed)
qed

lemma fails_last_snoc_failed: "fails_last ks \<Longrightarrow> fails_last (ks @ [(tid, None)])"
  by (induction ks rule: fails_last.induct) simp_all

lemma fails_last_snoc_all_constructed:
  "list_all (\<lambda>k. snd k \<noteq> None) ks \<Longrightarrow> fails_last (ks @ [k])"
proof (induction ks rule: fails_last.induct)
  case 1
  show ?case by (cases k; cases "snd k"; simp)
qed simp_all

lemma orderly_Cons:
  "orderly pending (e # ins) = (admissible pending e \<and> orderly (next_pending pending e) ins)"
  by (cases e) auto

lemma forget_jobs_eq_fields:
  assumes "forget_jobs a = forget_jobs b"
  shows "eventSource a = eventSource b" "suggestionCallbacks a = suggestionCallbacks b"
    "streams a = streams b" "timers a = timers b" "now a = now b" "invoked a = invoked b"
proof -
  have "eventSource (forget_jobs a) = eventSource (forget_jobs b)"
    "suggestionCallbacks (forget_jobs a) = suggestionCallbacks (forget_jobs b)"
    "streams (forget_jobs a) = streams (forget_jobs b)"
    "timers (forget_jobs a) = timers (forget_jobs b)"
    "now (forget_jobs a) = now (forget_jobs b)"
    "invoked (forget_jobs a) = invoked (forget_jobs b)"
    using assms by simp_all
  then show "eventSource a = eventSource b" "suggestionCallbacks a = suggestionCallbacks b"
    "streams a = streams b" "timers a = timers b" "now a = now b" "invoked a = invoked b"
    by (simp_all add: forget_jobs_def)
qed

lemma mirrored_drain:
  assumes "mirrored pending sf sm"
  shows "drain sf = drain sm"
proof -
  from assms obtain psf psm where q:
    "microtasks sf = await_jobs psf" "microtasks sm = then_jobs psm"
    "settled psf = settled psm" "fails_last (settled psf)" "forget_jobs sf = forget_jobs sm"
    unfolding mirrored_def by blast
  have "drain sf = fold resume_effect (settled psf) (forget_jobs sf)"
    using drain_await_jobs [OF q(1)] by (simp add: forget_jobs_def)
  also have "\<dots> = fold catch_effect (map (\<lambda>k. snd k = None) (settled psf))
      (fold then_effect (settled psf) (forget_jobs sf))"
    by (rule fails_last_same_end [OF q(4)])
  also have "\<dots> = drain sm"
    using drain_then_jobs [of sm psm "[]"] q(2) by (simp add: forget_jobs_def q(3) q(5) [unfolded forget_jobs_def])
  finally show ?thesis .
qed

lemma mirrored_same: "microtasks t = [] \<Longrightarrow> mirrored False t t"
  unfolding mirrored_def
  by (intro exI [of _ "[]"]) (simp add: await_jobs_def then_jobs_def settled_def)

lemma step_microtasks_after_task:
  "microtasks (step Yield s) = []"
  "microtasks (step (Message sid raw) s) = []"
  "microtasks (step (Stream_error sid) s) = []"
  "microtasks (step (Advance d) s) = []"
  by (simp_all add: Let_def split: option.splits)

lemma mirrored_step:
  assumes "mirrored pending sf sm" "admissible pending e"
  shows "mirrored (next_pending pending e) (step e sf) (step_mobile e sm)"
proof -
  from assms(1) obtain psf psm where q:
    "microtasks sf = await_jobs psf" "microtasks sm = then_jobs psm"
    "settled psf = settled psm" "fails_last (settled psf)"
    "pending \<or> list_all (\<lambda>k. snd k \<noteq> None) (settled psf)"
    "forget_jobs sf = forget_jobs sm"
    unfolding mirrored_def by blast
  show ?thesis
  proof (cases e)
    case (Start tid cb rt)
    let ?pf = "fst (getSuggestions rt tid sf)" and ?pm = "fst (getSuggestions_mobile rt tid sm)"
    have len: "length (streams sf) = length (streams sm)"
      using forget_jobs_eq_fields(3) [OF q(6)] by simp
    have 1: "microtasks (step e sf) = await_jobs (psf @ [(tid, ?pf)])"
      by (simp add: Start startSuggestionStream_as_call_effect q(1) await_jobs_def)
    have 2: "microtasks (step_mobile e sm) = then_jobs (psm @ [(tid, ?pm)])"
      by (simp add: Start startSuggestionStream_mobile_as_call_effect q(2) then_jobs_def)
    have 3: "settled (psf @ [(tid, ?pf)]) = settled (psm @ [(tid, ?pm)])"
      using q(3) len by (simp add: settled_def settle_getSuggestions)
    have 4: "settled (psf @ [(tid, ?pf)]) =
               settled psf @ [(tid, if rt = Constructs then Some (length (streams sf)) else None)]"
      by (simp add: settled_def settle_getSuggestions)
    have 5: "forget_jobs (step e sf) = forget_jobs (step_mobile e sm)"
      by (simp add: Start startSuggestionStream_as_call_effect
            startSuggestionStream_mobile_as_call_effect forget_jobs_call_effect q(6))
    show ?thesis
    proof (cases "rt = Constructs")
      case True
      with assms(2) Start have "\<not> pending" by simp
      with q(5) have all: "list_all (\<lambda>k. snd k \<noteq> None) (settled psf)" by simp
      then have "fails_last (settled (psf @ [(tid, ?pf)]))"
        unfolding 4 by (rule fails_last_snoc_all_constructed)
      moreover from all True have "list_all (\<lambda>k. snd k \<noteq> None) (settled (psf @ [(tid, ?pf)]))"
        unfolding 4 by simp
      ultimately show ?thesis
        unfolding mirrored_def using 1 2 3 5 by blast
    next
      case False
      then have "fails_last (settled (psf @ [(tid, ?pf)]))"
        unfolding 4 using q(4) by (simp add: fails_last_snoc_failed)
      moreover from False have "next_pending pending e" by (simp add: Start)
      ultimately show ?thesis
        unfolding mirrored_def using 1 2 3 5 by blast
    qed
  next
    case Stop
    have "forget_jobs (step e sf) = forget_jobs (step_mobile e sm)"
      by (simp add: Stop forget_jobs_stop q(6))
    with q show ?thesis
      unfolding mirrored_def by (intro exI [of _ psf] exI [of _ psm]) (simp add: Stop)
  next
    case Yield
    have "step_mobile e sm = step e sf"
      unfolding Yield step_mobile_eq using mirrored_drain [OF assms(1)] by simp
    then show ?thesis
      using mirrored_same [of "step e sf"] by (simp add: Yield)
  next
    case (Message sid raw)
    have "step_mobile e sm = step e sf"
      unfolding Message step_mobile_eq using mirrored_drain [OF assms(1)] by simp
    then show ?thesis
      using mirrored_same [of "step e sf"] step_microtasks_after_task(2) [of sid raw sf]
      by (simp only: Message next_pending.simps)
  next
    case (Stream_error sid)
    have "step_mobile e sm = step e sf"
      unfolding Stream_error step_mobile_eq using mirrored_drain [OF assms(1)] by simp
    then show ?thesis
      using mirrored_same [of "step e sf"] step_microtasks_after_task(3) [of sid sf]
      by (simp only: Stream_error next_pending.simps)
  next
    case (Advance d)
    have "step_mobile e sm = step e sf"
      unfolding Advance step_mobile_eq using mirrored_drain [OF assms(1)] by simp
    then show ?thesis
      using mirrored_same [of "step e sf"] step_microtasks_after_task(4) [of d sf]
      by (simp only: Advance next_pending.simps)
  qed
qed

lemma mirrored_run:
  "mirrored pending sf sm \<Longrightarrow> orderly pending ins \<Longrightarrow>
     forget_jobs (run ins sf) = forget_jobs (run_mobile ins sm)"
proof (induction ins arbitrary: pending sf sm)
  case Nil
  then show ?case by (auto simp: mirrored_def)
next
  case (Cons e ins)
  from Cons.prems(2) have "admissible pending e" "orderly (next_pending pending e) ins"
    by (simp_all add: orderly_Cons)
  from Cons.IH [OF mirrored_step [OF Cons.prems(1) this(1)] this(2)] show ?case by simp
qed

subsection \<open>A manager whose registry is empty\<close>

lemma onmessage_frontend_unregistered:
  assumes "suggestionCallbacks s tid = None"
  shows "invoked (onmessage_frontend via tid raw s) = invoked s"
    and "suggestionCallbacks (onmessage_frontend via tid raw s) = suggestionCallbacks s
         \<or> suggestionCallbacks (onmessage_frontend via tid raw s) = Map.empty"
  using assms by (simp_all add: onmessage_frontend_def split: sum.splits)

lemma silent_step:
  assumes "microtasks s = []" "suggestionCallbacks s = Map.empty" "\<not> is_start e"
  shows "microtasks (step e s) = [] \<and> suggestionCallbacks (step e s) = Map.empty
         \<and> invoked (step e s) = invoked s"
proof (cases e)
  case (Message sid raw)
  show ?thesis
  proof (cases "message_listener s sid")
    case None
    with assms show ?thesis by (simp add: Message)
  next
    case (Some tid)
    from assms(2) have "suggestionCallbacks s tid = None" by simp
    from onmessage_frontend_unregistered [OF this, of sid raw] assms Some show ?thesis
      by (auto simp: Message)
  qed
next
  case (Advance d)
  with assms advance_stop_registry [of d s] show ?thesis by auto
qed (use assms in \<open>simp_all add: Let_def\<close>)

lemma silent_run:
  assumes "microtasks s = []" "suggestionCallbacks s = Map.empty" "\<forall>e \<in> set ins. \<not> is_start e"
  shows "invoked (run ins s) = invoked s"
  using assms
proof (induction ins arbitrary: s)
  case Nil
  then show ?case by simp
next
  case (Cons e ins)
  from Cons.prems have "\<not> is_start e" by simp
  from silent_step [OF Cons.prems(1,2) this] Cons.prems(3) Cons.IH [of "step e s"]
  show ?case by simp
qed

lemma run_mobile_without_start:
  "\<forall>e \<in> set ins. \<not> is_start e \<Longrightarrow> run_mobile ins s = run ins s"
proof (induction ins arbitrary: s)
  case Nil
  then show ?case by simp
next
  case (Cons e ins)
  then have "step_mobile e s = step e s" by (cases e) (simp_all only: step_mobile_eq, simp)
  with Cons show ?case by simp
qed

subsection \<open>The job queue of a manager\<close>

lemma frontend_queue_step:
  "\<exists>ps. microtasks s = await_jobs ps \<Longrightarrow> \<exists>ps. microtasks (step e s) = await_jobs ps"
proof (cases e)
  case (Start tid cb rt)
  assume "\<exists>ps. microtasks s = await_jobs ps"
  then obtain ps where "microtasks s = await_jobs ps" ..
  then have "microtasks (step e s) = await_jobs (ps @ [(tid, fst (getSuggestions rt tid s))])"
    by (simp add: Start startSuggestionStream_as_call_effect await_jobs_def)
  then show ?thesis ..
next
  case Stop
  assume "\<exists>ps. microtasks s = await_jobs ps"
  then show ?thesis by (simp add: Stop)
next
  case Yield
  have "microtasks (step e s) = await_jobs []" by (simp add: Yield await_jobs_def)
  then show ?thesis ..
next
  case (Message sid raw)
  have "microtasks (step e s) = await_jobs []"
    by (simp add: Message step_microtasks_after_task await_jobs_def del: step.simps)
  then show ?thesis ..
next
  case (Stream_error sid)
  have "microtasks (step e s) = await_jobs []"
    by (simp add: Stream_error step_microtasks_after_task await_jobs_def del: step.simps)
  then show ?thesis ..
next
  case (Advance d)
  have "microtasks (step e s) = await_jobs []"
    by (simp add: Advance step_microtasks_after_task await_jobs_def del: step.simps)
  then show ?thesis ..
qed

lemma frontend_queue_run:
  "\<exists>ps. microtasks s = await_jobs ps \<Longrightarrow> \<exists>ps. microtasks (run ins s) = await_jobs ps"
  by (induction ins arbitrary: s) (simp_all add: frontend_queue_step)

lemma frontend_queue: "\<exists>ps. microtasks (run ins init) = await_jobs ps"
  by (rule frontend_queue_run) (simp add: init_def await_jobs_def)

lemma mobile_queue_step:
  "\<exists>ps. microtasks s = then_jobs ps \<Longrightarrow> \<exists>ps. microtasks (step_mobile e s) = then_jobs ps"
proof (cases e)
  case (Start tid cb rt)
  assume "\<exists>ps. microtasks s = then_jobs ps"
  then obtain ps where "microtasks s = then_jobs ps" ..
  then have "microtasks (step_mobile e s) =
      then_jobs (ps @ [(tid, fst (getSuggestions_mobile rt tid s))])"
    by (simp add: Start startSuggestionStream_mobile_as_call_effect then_jobs_def)
  then show ?thesis ..
next
  case Stop
  assume "\<exists>ps. microtasks s = then_jobs ps"
  then show ?thesis by (simp add: Stop)
next
  case Yield
  have "microtasks (step_mobile e s) = then_jobs []" by (simp add: Yield then_jobs_def)
  then show ?thesis ..
next
  case (Message sid raw)
  have "microtasks (step_mobile e s) = then_jobs []"
    unfolding Message step_mobile_eq
    by (simp add: step_microtasks_after_task then_jobs_def del: step.simps)
  then show ?thesis ..
next
  case (Stream_error sid)
  have "microtasks (step_mobile e s) = then_jobs []"
    unfolding Stream_error step_mobile_eq
    by (simp add: step_microtasks_after_task then_jobs_def del: step.simps)
  then show ?thesis ..
next
  case (Advance d)
  have "microtasks (step_mobile e s) = then_jobs []"
    unfolding Advance step_mobile_eq
    by (simp add: step_microtasks_after_task then_jobs_def del: step.simps)
  then show ?thesis ..
qed

lemma mobile_queue_run:
  "\<exists>ps. microtasks s = then_jobs ps \<Longrightarrow> \<exists>ps. microtasks (run_mobile ins s) = then_jobs ps"
  by (induction ins arbitrary: s) (simp_all add: mobile_queue_step)

lemma mobile_queue: "\<exists>ps. microtasks (run_mobile ins init) = then_jobs ps"
  by (rule mobile_queue_run) (simp add: init_def then_jobs_def)

subsection \<open>A call whose stream is not constructed\<close>

lemma call_effect_fields [simp]:
  "invoked (call_effect tid cb rt s) = invoked s"
  "rt \<noteq> Constructs \<Longrightarrow> length (streams (call_effect tid cb rt s)) = length (streams s)"
  by (cases rt; simp add: call_effect_def new_EventSource_def Let_def split: option.splits)+

lemma settled_snoc:
  "settled (ps @ [(tid, p)]) = settled ps @ [(tid, settle p)]"
  "settled ps = [] \<longleftrightarrow> ps = []"
  by (simp_all add: settled_def)

lemma fold_resume_failed_last:
  assumes "ks \<noteq> []" "snd (last ks) = None"
  shows "\<exists>t. fold resume_effect ks s = stopSuggestionStream t"
proof (cases ks rule: rev_cases)
  case Nil
  with assms(1) show ?thesis by simp
next
  case (snoc ys y)
  obtain tid r where y: "y = (tid, r)" by (cases y)
  with snoc assms(2) have "r = None" by simp
  with snoc y have "fold resume_effect ks s = stopSuggestionStream (fold resume_effect ys s)"
    by simp
  then show ?thesis ..
qed

lemma fold_catch_failed_last:
  assumes "ks \<noteq> []" "snd (last ks) = None"
  shows "\<exists>t. fold catch_effect (map (\<lambda>k. snd k = None) ks) s = stopSuggestionStream t"
proof (cases ks rule: rev_cases)
  case Nil
  with assms(1) show ?thesis by simp
next
  case (snoc ys y)
  with assms(2) have "snd y = None" by simp
  with snoc have "fold catch_effect (map (\<lambda>k. snd k = None) ks) s =
      stopSuggestionStream (fold catch_effect (map (\<lambda>k. snd k = None) ys) s)"
    by simp
  then show ?thesis ..
qed

lemma failed_last_frontend_drain:
  assumes "failed_last_frontend s"
  shows "\<exists>t. drain s = stopSuggestionStream t"
proof -
  from assms obtain ps where ps: "microtasks s = await_jobs ps" "ps \<noteq> []"
    "snd (last (settled ps)) = None"
    unfolding failed_last_frontend_def by blast
  from ps(2) have "settled ps \<noteq> []" by (simp add: settled_snoc(2))
  from fold_resume_failed_last [OF this ps(3)] show ?thesis
    unfolding drain_await_jobs [OF ps(1)] .
qed

lemma failed_last_mobile_drain:
  assumes "failed_last_mobile s"
  shows "\<exists>t. drain s = stopSuggestionStream t"
proof -
  from assms obtain ps where ps: "microtasks s = then_jobs ps" "ps \<noteq> []"
    "snd (last (settled ps)) = None"
    unfolding failed_last_mobile_def by blast
  from ps(2) have ne: "settled ps \<noteq> []" by (simp add: settled_snoc(2))
  have "microtasks s = then_jobs ps @ map Catch_reaction []" using ps(1) by simp
  from drain_then_jobs [OF this] fold_catch_failed_last [OF ne ps(3)] show ?thesis by simp
qed

lemma failed_last_frontend_call:
  assumes "\<exists>ps. microtasks s = await_jobs ps" "rt \<noteq> Constructs"
  shows "failed_last_frontend (step (Start tid cb rt) s)"
proof -
  from assms(1) obtain ps where "microtasks s = await_jobs ps" ..
  then have "microtasks (step (Start tid cb rt) s) =
      await_jobs (ps @ [(tid, fst (getSuggestions rt tid s))])"
    by (simp add: startSuggestionStream_as_call_effect await_jobs_def)
  moreover have "snd (last (settled (ps @ [(tid, fst (getSuggestions rt tid s))]))) = None"
    using assms(2) by (simp add: settled_snoc settle_getSuggestions)
  ultimately show ?thesis unfolding failed_last_frontend_def by blast
qed

lemma failed_last_mobile_call:
  assumes "\<exists>ps. microtasks s = then_jobs ps" "rt \<noteq> Constructs"
  shows "failed_last_mobile (step_mobile (Start tid cb rt) s)"
proof -
  from assms(1) obtain ps where "microtasks s = then_jobs ps" ..
  then have "microtasks (step_mobile (Start tid cb rt) s) =
      then_jobs (ps @ [(tid, fst (getSuggestions_mobile rt tid s))])"
    by (simp add: startSuggestionStream_mobile_as_call_effect then_jobs_def)
  moreover have "snd (last (settled (ps @ [(tid, fst (getSuggestions_mobile rt tid s))]))) = None"
    using assms(2) by (simp add: settled_snoc settle_getSuggestions)
  ultimately show ?thesis unfolding failed_last_mobile_def by blast
qed

lemma failed_last_frontend_step:
  assumes "failed_last_frontend s" "opens_nothing e"
  shows "failed_last_frontend (step e s)"
proof (cases e)
  case (Start tid cb rt)
  from assms(1) have "\<exists>ps. microtasks s = await_jobs ps"
    unfolding failed_last_frontend_def by blast
  from failed_last_frontend_call [OF this] assms(2) show ?thesis by (simp add: Start)
next
  case Stop
  with assms(1) show ?thesis by (simp add: failed_last_frontend_def)
qed (use assms(2) in simp_all)

lemma failed_last_mobile_step:
  assumes "failed_last_mobile s" "opens_nothing e"
  shows "failed_last_mobile (step_mobile e s)"
proof (cases e)
  case (Start tid cb rt)
  from assms(1) have "\<exists>ps. microtasks s = then_jobs ps"
    unfolding failed_last_mobile_def by blast
  from failed_last_mobile_call [OF this] assms(2) show ?thesis by (simp add: Start)
next
  case Stop
  with assms(1) show ?thesis by (simp add: failed_last_mobile_def)
qed (use assms(2) in simp_all)

lemma opens_nothing_step:
  assumes "opens_nothing e"
  shows "length (streams (step e s)) = length (streams s)" "invoked (step e s) = invoked s"
    "length (streams (step_mobile e s)) = length (streams s)" "invoked (step_mobile e s) = invoked s"
  using assms
  by (cases e; simp add: startSuggestionStream_as_call_effect
        startSuggestionStream_mobile_as_call_effect)+

lemma opens_nothing_run:
  assumes "\<forall>e \<in> set rest. opens_nothing e"
  shows "length (streams (run rest s)) = length (streams s)" "invoked (run rest s) = invoked s"
    "length (streams (run_mobile rest s)) = length (streams s)"
    "invoked (run_mobile rest s) = invoked s"
    "failed_last_frontend s \<Longrightarrow> failed_last_frontend (run rest s)"
    "failed_last_mobile s \<Longrightarrow> failed_last_mobile (run_mobile rest s)"
  using assms
  by (induction rest arbitrary: s)
     (simp_all add: opens_nothing_step failed_last_frontend_step failed_last_mobile_step)

lemma idle_step:
  assumes "microtasks s = []" "suggestionCallbacks s = Map.empty" "eventSource s = None"
    and "\<not> is_start e"
  shows "eventSource (step e s) = None" "length (streams (step e s)) = length (streams s)"
proof -
  have adv: "eventSource (advance stopSuggestionStream d s) = None" for d
  proof (cases "filter (\<lambda>deadline. deadline \<le> now s + d) (timers s)")
    case Nil
    with assms(3) show ?thesis by (simp add: advance_def Let_def)
  next
    case (Cons a list)
    then show ?thesis by (simp add: advance_def Let_def)
  qed
  have len: "length (streams (fold (\<lambda>x. stopSuggestionStream) xs t)) = length (streams t)" for xs t
    by (induction xs arbitrary: t) simp_all
  have msg: "eventSource (onmessage_frontend via tid raw s) = None" for via tid raw
    using onmessage_frontend_cases [of via tid raw s] assms(2,3) by auto
  show "eventSource (step e s) = None"
    using assms adv msg by (cases e) (simp_all split: option.splits)
  show "length (streams (step e s)) = length (streams s)"
    using assms(1,4) by (cases e) (simp_all add: advance_def Let_def len split: option.splits)
qed

lemma idle_run:
  assumes "microtasks s = []" "suggestionCallbacks s = Map.empty" "eventSource s = None"
    and "\<forall>e \<in> set ins. \<not> is_start e"
  shows "eventSource (run ins s) = None \<and> suggestionCallbacks (run ins s) = Map.empty
    \<and> length (streams (run ins s)) = length (streams s) \<and> invoked (run ins s) = invoked s"
  using assms
proof (induction ins arbitrary: s)
  case Nil
  then show ?case by simp
next
  case (Cons e ins)
  from Cons.prems have ns: "\<not> is_start e" by simp
  from silent_step [OF Cons.prems(1,2) ns] idle_step [OF Cons.prems(1,2,3) ns]
    Cons.IH [of "step e s"] Cons.prems(4)
  show ?case by simp
qed


lemma task_after_drain:
  assumes "ends_task e"
  shows "step e (drain s) = step e s" "step_mobile e (drain s) = step_mobile e s"
  using assms by (cases e; simp)+

subsection \<open>One call per task\<close>

lemma only_held_is_open_stop:
  assumes "only_held_is_open s"
  shows "only_held_is_open (stopSuggestionStream s)"
    and "\<forall>sid < length (streams s). closed (streams (stopSuggestionStream s) ! sid)"
  using assms
  by (auto simp: only_held_is_open_def stopSuggestionStream_def close_def update_stream_def
        nth_list_update split: option.splits)

lemma only_held_is_open_logged:
  "only_held_is_open (s\<lparr>invoked := x\<rparr>) = only_held_is_open s"
  by (simp add: only_held_is_open_def)

lemma only_held_is_open_onmessage:
  assumes "only_held_is_open s"
  shows "only_held_is_open (onmessage_frontend via tid raw s)"
  using onmessage_frontend_cases [of via tid raw s] assms
    only_held_is_open_stop(1) [OF assms]
    only_held_is_open_stop(1) [of "s\<lparr>invoked := x\<rparr>" for x]
  by (elim disjE exE conjE) (simp_all add: only_held_is_open_logged)

lemma only_held_is_open_start_yield:
  assumes "only_held_is_open s"
  shows "only_held_is_open (run [Start tid cb rt, Yield] s)"
proof -
  from assms have q: "microtasks s = []"
    and held: "\<forall>sid < length (streams s). closed (streams s ! sid) \<or> eventSource s = Some sid"
    by (simp_all add: only_held_is_open_def)
  let ?c = "call_effect tid cb rt s"
  have all_closed: "\<forall>sid < length (streams s). closed (streams ?c ! sid)"
    using held
    by (cases rt)
       (auto simp: call_effect_def new_EventSource_def Let_def close_def update_stream_def
          nth_list_update nth_append split: option.splits)
  have len: "length (streams ?c) = (if rt = Constructs then Suc (length (streams s)) else length (streams s))"
    by (cases rt)
       (simp_all add: call_effect_def new_EventSource_def Let_def split: option.splits)
  have cq: "microtasks ?c = []"
    using q
    by (cases rt) (simp_all add: call_effect_def new_EventSource_def Let_def split: option.splits)
  then have c_idle: "?c\<lparr>microtasks := []\<rparr> = ?c"
    using forget_jobs_idle [of ?c] by (simp add: forget_jobs_def)
  have run_eq: "run [Start tid cb rt, Yield] s =
      resume_effect (tid, settle (fst (getSuggestions rt tid s))) ?c"
  proof -
    let ?st = "startSuggestionStream tid cb rt s"
    have "microtasks ?st = await_jobs [(tid, fst (getSuggestions rt tid s))]"
      by (simp add: startSuggestionStream_as_call_effect q await_jobs_def)
    from drain_await_jobs [OF this]
    have "drain ?st = resume_effect (tid, settle (fst (getSuggestions rt tid s)))
        (?st\<lparr>microtasks := []\<rparr>)"
      by (simp add: settled_def)
    moreover have "?st\<lparr>microtasks := []\<rparr> = ?c"
      using c_idle by (simp add: startSuggestionStream_as_call_effect)
    ultimately show ?thesis by simp
  qed
  show ?thesis
  proof (cases "rt = Constructs")
    case True
    let ?n = "length (streams s)"
    have "run [Start tid cb rt, Yield] s = startSuggestionStream_resume tid (Inr ?n) ?c"
      unfolding run_eq by (simp add: True settle_getSuggestions)
    moreover have "only_held_is_open (startSuggestionStream_resume tid (Inr ?n) ?c)"
      using all_closed len True cq
      by (auto simp: only_held_is_open_def startSuggestionStream_resume_def Let_def
            update_stream_def setTimeout_def nth_list_update less_Suc_eq)
    ultimately show ?thesis by simp
  next
    case False
    have "run [Start tid cb rt, Yield] s = stopSuggestionStream ?c"
      unfolding run_eq using False by (simp add: settle_getSuggestions)
    moreover have "only_held_is_open ?c"
      using all_closed len False cq by (simp add: only_held_is_open_def)
    ultimately show ?thesis using only_held_is_open_stop(1) by simp
  qed
qed


lemma only_held_is_open_step:
  assumes "only_held_is_open s" "\<not> is_start e"
  shows "only_held_is_open (step e s)"
proof -
  from assms(1) have q: "microtasks s = []" by (simp add: only_held_is_open_def)
  show ?thesis
  proof (cases e)
    case (Start tid cb rt)
    with assms(2) show ?thesis by simp
  next
    case Stop
    with only_held_is_open_stop(1) [OF assms(1)] show ?thesis by simp
  next
    case Yield
    with assms(1) q show ?thesis by simp
  next
    case (Message sid raw)
    with assms(1) q only_held_is_open_onmessage [OF assms(1)] show ?thesis
      by (simp split: option.splits)
  next
    case (Stream_error sid)
    with assms(1) q only_held_is_open_stop(1) [OF assms(1)] show ?thesis by simp
  next
    case (Advance d)
    have moved: "only_held_is_open (s\<lparr>now := a, timers := b\<rparr>)" for a b
      using assms(1) by (simp add: only_held_is_open_def)
    have "only_held_is_open (fold (\<lambda>x. stopSuggestionStream) xs t)" if "only_held_is_open t" for xs t
      using that by (induction xs arbitrary: t) (simp_all add: only_held_is_open_stop(1))
    from this [OF moved] q show ?thesis by (simp add: Advance advance_def Let_def)
  qed
qed

lemma sequential_after_start:
  assumes "sequential (Start tid cb rt # ins)"
  shows "\<exists>rest. ins = Yield # rest \<and> sequential rest"
proof (cases ins)
  case Nil
  with assms show ?thesis by simp
next
  case (Cons e rest)
  with assms show ?thesis by (cases e) simp_all
qed

lemma sequential_after_other:
  "sequential (e # ins) \<Longrightarrow> \<not> is_start e \<Longrightarrow> sequential ins"
  by (cases e) simp_all

lemma only_held_is_open_run:
  "sequential ins \<Longrightarrow> only_held_is_open s \<Longrightarrow> only_held_is_open (run ins s)"
proof (induction "length ins" arbitrary: ins s rule: less_induct)
  case less
  show ?case
  proof (cases ins)
    case Nil
    with less.prems show ?thesis by simp
  next
    case (Cons e rest)
    show ?thesis
    proof (cases "is_start e")
      case True
      then obtain tid cb rt where e: "e = Start tid cb rt" by (cases e) simp_all
      from sequential_after_start [OF less.prems(1) [unfolded Cons e]]
      obtain rest' where rest: "rest = Yield # rest'" "sequential rest'" by blast
      have "only_held_is_open (run [Start tid cb rt, Yield] s)"
        by (rule only_held_is_open_start_yield [OF less.prems(2)])
      from less.hyps [OF _ rest(2) this] show ?thesis
        by (simp add: Cons e rest)
    next
      case False
      from sequential_after_other [OF less.prems(1) [unfolded Cons] False]
      have "sequential rest" .
      from less.hyps [OF _ this only_held_is_open_step [OF less.prems(2) False]]
      show ?thesis by (simp add: Cons)
    qed
  qed
qed

lemma only_held_is_open_init: "only_held_is_open init"
  by (simp add: only_held_is_open_def init_def)

lemma restart_streams:
  assumes "only_held_is_open s"
  shows "length (streams (run [Start tid cb Constructs, Yield] s)) = Suc (length (streams s))"
    and "url_thread (streams (run [Start tid cb Constructs, Yield] s) ! length (streams s)) = tid"
    and "\<not> closed (streams (run [Start tid cb Constructs, Yield] s) ! length (streams s))"
    and "eventSource (run [Start tid cb Constructs, Yield] s) = Some (length (streams s))"
proof -
  from assms have q: "microtasks s = []" by (simp add: only_held_is_open_def)
  have "run [Start tid cb Constructs, Yield] s =
      drain (startSuggestionStream tid cb Constructs s)" by simp
  also have "\<dots> = startSuggestionStream_resume tid (Inr (length (streams s)))
      ((startSuggestionStream tid cb Constructs s)\<lparr>microtasks := []\<rparr>)"
    using q by (simp add: startSuggestionStream_microtasks)
  finally have eq: "run [Start tid cb Constructs, Yield] s =
      startSuggestionStream_resume tid (Inr (length (streams s)))
        ((startSuggestionStream tid cb Constructs s)\<lparr>microtasks := []\<rparr>)" .
  have st: "streams (startSuggestionStream tid cb Constructs s) =
      streams (case eventSource s of None \<Rightarrow> s | Some es \<Rightarrow> close es s)
        @ [\<lparr>url_thread = tid, closed = False, onmessage = None, onerror = False\<rparr>]"
    by (simp add: startSuggestionStream_def getSuggestions_def new_EventSource_def Let_def
          close_def update_stream_def split: option.splits)
  have len: "length (streams (case eventSource s of None \<Rightarrow> s | Some es \<Rightarrow> close es s))
      = length (streams s)"
    by (simp split: option.splits)
  show "length (streams (run [Start tid cb Constructs, Yield] s)) = Suc (length (streams s))"
    unfolding eq by (simp add: st len)
  show "url_thread (streams (run [Start tid cb Constructs, Yield] s) ! length (streams s)) = tid"
    unfolding eq
    by (simp add: startSuggestionStream_resume_def Let_def update_stream_def st len nth_append)
  show "\<not> closed (streams (run [Start tid cb Constructs, Yield] s) ! length (streams s))"
    unfolding eq
    by (simp add: startSuggestionStream_resume_def Let_def update_stream_def st len nth_append)
  show "eventSource (run [Start tid cb Constructs, Yield] s) = Some (length (streams s))"
    unfolding eq by simp
qed

lemma is_closed_held_after_call:
  assumes "eventSource s = Some sid" "sid < length (streams s)"
  shows "is_closed (step (Start tid cb rt) s) sid" and "is_closed (step Stop s) sid"
proof -
  have "is_closed (call_effect tid cb rt s) sid"
    using assms
    by (cases rt)
       (simp_all add: call_effect_def new_EventSource_def Let_def close_def update_stream_def
          is_closed_def nth_append)
  then show "is_closed (step (Start tid cb rt) s) sid"
    by (simp add: startSuggestionStream_as_call_effect is_closed_def)
  show "is_closed (step Stop s) sid"
    using is_closed_after_stop [OF assms] by simp
qed

subsection \<open>The stream of a session that nothing ends\<close>

lemma held_or_closed_frame:
  "streams t = streams s \<Longrightarrow> eventSource t = eventSource s \<Longrightarrow>
     held_or_closed n t = held_or_closed n s"
  by (simp add: held_or_closed_def)

lemma held_or_closed_stop:
  assumes "held_or_closed n s"
  shows "held_or_closed n (stopSuggestionStream s)" and "is_closed (stopSuggestionStream s) n"
proof -
  from assms have n: "n < length (streams s)" by (simp add: held_or_closed_def)
  show c: "is_closed (stopSuggestionStream s) n"
  proof (cases "closed (streams s ! n)")
    case True
    with n have "is_closed s n" by (simp add: is_closed_def)
    then show ?thesis by (rule is_closed_stop)
  next
    case False
    with assms have "eventSource s = Some n" by (simp add: held_or_closed_def)
    then show ?thesis using n by (rule is_closed_after_stop)
  qed
  then show "held_or_closed n (stopSuggestionStream s)"
    by (simp add: held_or_closed_def is_closed_def)
qed

lemma held_or_closed_fold_stop:
  "held_or_closed n s \<Longrightarrow> held_or_closed n (fold (\<lambda>x. stopSuggestionStream) xs s)"
  by (induction xs arbitrary: s) (simp_all add: held_or_closed_stop(1))

lemma held_or_closed_catch_effects:
  "held_or_closed n s \<Longrightarrow> held_or_closed n (fold catch_effect rs s)"
proof (induction rs arbitrary: s)
  case Nil
  then show ?case by simp
next
  case (Cons r rs)
  then show ?case by (cases r) (simp_all add: held_or_closed_stop(1))
qed

lemma held_or_closed_catch_jobs:
  assumes "microtasks s = map Catch_reaction cs" "held_or_closed n s"
  shows "held_or_closed n (drain s)"
proof -
  from assms(2) have "held_or_closed n (s\<lparr>microtasks := []\<rparr>)"
    by (simp add: held_or_closed_def)
  then show ?thesis
    unfolding drain_catch_jobs [OF assms(1)] by (rule held_or_closed_catch_effects)
qed

lemma run_microtask_appends_catches:
  "\<exists>ex. microtasks (run_microtask job s) = microtasks s @ map Catch_reaction ex"
proof (induction job s rule: run_microtask.induct)
  case (1 threadId p s)
  have "microtasks (run_microtask (Await_resume threadId p) s) = microtasks s @ map Catch_reaction []"
    by simp
  then show ?case ..
next
  case (2 threadId es s)
  have "microtasks (run_microtask (Then_reaction threadId (Inr es)) s)
      = microtasks s @ map Catch_reaction [None]"
    by (simp add: then_callback_mobile_eq)
  then show ?case ..
next
  case (3 threadId e s)
  have "microtasks (run_microtask (Then_reaction threadId (Inl e)) s)
      = microtasks s @ map Catch_reaction [Some e]"
    by simp
  then show ?case ..
next
  case (4 e s)
  have "microtasks (run_microtask (Catch_reaction (Some e)) s) = microtasks s @ map Catch_reaction []"
    by simp
  then show ?case ..
next
  case (5 s)
  have "microtasks (run_microtask (Catch_reaction None) s) = microtasks s @ map Catch_reaction []"
    by simp
  then show ?case ..
qed

lemma held_or_closed_last_resume:
  assumes "microtasks s = q @ Await_resume tid (Inr n) # map Catch_reaction cs"
    and "n < length (streams s)"
  shows "held_or_closed n (drain s)"
  using assms
proof (induction q arbitrary: s cs)
  case Nil
  let ?t = "startSuggestionStream_resume tid (Inr n) (s\<lparr>microtasks := map Catch_reaction cs\<rparr>)"
  from Nil have "drain s = drain ?t" by simp
  moreover have "microtasks ?t = map Catch_reaction cs" by simp
  moreover from Nil.prems(2) have "held_or_closed n ?t" by (simp add: held_or_closed_def)
  ultimately show ?case using held_or_closed_catch_jobs by simp
next
  case (Cons j q)
  let ?u = "s\<lparr>microtasks := q @ Await_resume tid (Inr n) # map Catch_reaction cs\<rparr>"
  let ?t = "run_microtask j ?u"
  from Cons.prems(1) have d: "drain s = drain ?t" by simp
  obtain ex where "microtasks ?t = microtasks ?u @ map Catch_reaction ex"
    using run_microtask_appends_catches [of j ?u] by blast
  then have "microtasks ?t = q @ Await_resume tid (Inr n) # map Catch_reaction (cs @ ex)"
    by simp
  moreover from Cons.prems(2) have "n < length (streams ?t)" by simp
  ultimately have "held_or_closed n (drain ?t)" by (rule Cons.IH)
  with d show ?case by simp
qed

lemma held_or_closed_started:
  "held_or_closed (length (streams s)) (run [Start threadId cb Constructs, Yield] s)"
proof -
  let ?t = "startSuggestionStream threadId cb Constructs s"
  have "microtasks ?t = microtasks s @ Await_resume threadId (Inr (length (streams s)))
      # map Catch_reaction []"
    by (simp add: startSuggestionStream_microtasks)
  moreover have "length (streams s) < length (streams ?t)"
    by (simp add: startSuggestionStream_as_call_effect call_effect_def new_EventSource_def
          Let_def split: option.splits)
  ultimately have "held_or_closed (length (streams s)) (drain ?t)"
    by (rule held_or_closed_last_resume)
  then show ?thesis by simp
qed

lemma nonfinal_message_streams:
  assumes "\<not> carries_final raw"
  shows "streams (onmessage_frontend via tid raw s) = streams s"
  using assms
  by (simp add: carries_final_def onmessage_frontend_def Let_def split: sum.splits option.splits)

lemma held_or_closed_step:
  assumes "held_or_closed n s" "microtasks s = []" "\<not> terminating e"
  shows "held_or_closed n (step e s)"
proof (cases e)
  case Yield
  with assms show ?thesis by simp
next
  case (Message sid raw)
  with assms(3) have nf: "\<not> carries_final raw" by simp
  show ?thesis
  proof (cases "message_listener s sid")
    case None
    with assms show ?thesis by (simp add: Message)
  next
    case (Some tid)
    have "held_or_closed n (onmessage_frontend sid tid raw s) = held_or_closed n s"
      by (rule held_or_closed_frame)
         (simp_all add: nonfinal_message_streams [OF nf] nonfinal_message_fields [OF nf])
    with assms Some show ?thesis by (simp add: Message)
  qed
next
  case (Advance d)
  have "held_or_closed n (s\<lparr>now := a, timers := b\<rparr>)" for a b
    using assms(1) by (simp add: held_or_closed_def)
  then show ?thesis
    using assms(2) by (simp add: Advance advance_def Let_def held_or_closed_fold_stop)
qed (use assms in simp_all)

lemma session_invariants_run:
  assumes "on_schedule D s" "held_or_closed n s" "\<forall>e \<in> set ins. \<not> terminating e"
  shows "on_schedule D (run ins s) \<and> held_or_closed n (run ins s)"
  using assms
proof (induction ins arbitrary: s)
  case Nil
  then show ?case by simp
next
  case (Cons e ins)
  from Cons.prems have nt: "\<not> terminating e" by simp
  from Cons.prems(1) have q: "microtasks s = []" by (simp add: on_schedule_def)
  from Cons.IH [OF on_schedule_step [OF Cons.prems(1) nt]
      held_or_closed_step [OF Cons.prems(2) q nt]] Cons.prems(3)
  show ?case by simp
qed

section \<open>Stopping twice\<close>

text \<open>
  Claim C9. \<open>stop()\<close> is idempotent: called on an idle manager (no stream held, empty
  registry) it changes nothing, and any number of calls in a row leave the manager where
  the first call left it. The model's \<open>stopSuggestionStream\<close> is total, as the method has
  no statement that can throw. Stated for both classes.
\<close>

theorem stop_is_idempotent:
  "(eventSource s = None \<and> suggestionCallbacks s = Map.empty \<longrightarrow>
      run [Stop] s = s \<and> run_mobile [Stop] s = s)
   \<and> run (replicate (Suc n) Stop) s = run [Stop] s
   \<and> run_mobile (replicate (Suc n) Stop) s = run_mobile [Stop] s"
  by (simp add: stop_idle run_replicate_Stop run_mobile_replicate_Stop)

theorem stop_is_idempotent_witness:
  "eventSource init = None \<and> suggestionCallbacks init = Map.empty
   \<and> run [Stop] init = init \<and> run_mobile [Stop] init = init
   \<and> eventSource (run [Start ''t1'' (Callback 1 (\<lambda>v. False)) Constructs, Yield] init) = Some 0
   \<and> run [Stop, Stop, Stop] (run [Start ''t1'' (Callback 1 (\<lambda>v. False)) Constructs, Yield] init)
       = run [Stop] (run [Start ''t1'' (Callback 1 (\<lambda>v. False)) Constructs, Yield] init)"
  using stop_is_idempotent [of init 0]
    stop_is_idempotent [of "run [Start ''t1'' (Callback 1 (\<lambda>v. False)) Constructs, Yield] init" "Suc (Suc 0)"]
  by (simp add: eval_defs)

section \<open>Two calls of \<open>startSuggestionStream\<close> in one task\<close>

text \<open>
  Both classes close the stream they hold before they open the next one, but they learn
  of a stream only in the promise job that follows the call: \<open>this.eventSource\<close> is
  assigned after the \<open>await\<close> (frontend) or inside \<open>.then\<close> (mobile). A second call made
  before that job has run finds \<open>this.eventSource\<close> still \<open>null\<close> and closes nothing.

  Claim C2. The claim says that once the session of \<open>t1\<close> is superseded by
  \<open>startStream(t2, cb2)\<close>, no message of the subscription of \<open>t1\<close> reaches \<open>cb1\<close>. At
  \<open>startStream(t1, cb1); startStream(t2, cb2)\<close> followed by a message on the first stream,
  the handler of the first stream (stream 0, never closed) calls \<open>cb1\<close> (callback 1),
  in the frontend and in the mobile class alike.
\<close>

theorem superseded_callback_is_invoked:
  "invoked (run [Start ''t1'' (Callback 1 (\<lambda>v. False)) Constructs,
                 Start ''t2'' (Callback 2 (\<lambda>v. False)) Constructs,
                 Message 0 (Parseable (JObj [(''suggestions'', JArr [JStr ''a'']), (''event'', JStr ''react'')]))]
            init)
     = [(0, 1, JObj [(''suggestions'', JArr [JStr ''a'']), (''event'', JStr ''react'')])]
   \<and> invoked (run_mobile [Start ''t1'' (Callback 1 (\<lambda>v. False)) Constructs,
                 Start ''t2'' (Callback 2 (\<lambda>v. False)) Constructs,
                 Message 0 (Parseable (JObj [(''suggestions'', JArr [JStr ''a'']), (''event'', JStr ''react'')]))]
            init)
     = [(0, 1, JObj [(''suggestions'', JArr [JStr ''a'']), (''event'', JStr ''react'')])]"
  by (simp add: eval_defs)

text \<open>
  Claim C4. The claim says that a manager never has two subscriptions open at once.
  After the same two calls and the end of the task, the streams addressed to \<open>t1\<close> and
  to \<open>t2\<close> are both open; the manager holds the second, and nothing it does later can
  close the first, since \<open>stopSuggestionStream\<close> closes only the stream it holds.
\<close>

theorem two_streams_open_at_once:
  "map closed (streams (run [Start ''t1'' (Callback 1 (\<lambda>v. False)) Constructs,
                 Start ''t2'' (Callback 2 (\<lambda>v. False)) Constructs, Yield] init)) = [False, False]
   \<and> map url_thread (streams (run [Start ''t1'' (Callback 1 (\<lambda>v. False)) Constructs,
                 Start ''t2'' (Callback 2 (\<lambda>v. False)) Constructs, Yield] init)) = [''t1'', ''t2'']
   \<and> eventSource (run [Start ''t1'' (Callback 1 (\<lambda>v. False)) Constructs,
                 Start ''t2'' (Callback 2 (\<lambda>v. False)) Constructs, Yield] init) = Some 1
   \<and> map closed (streams (run_mobile [Start ''t1'' (Callback 1 (\<lambda>v. False)) Constructs,
                 Start ''t2'' (Callback 2 (\<lambda>v. False)) Constructs, Yield] init)) = [False, False]"
  by (simp add: eval_defs)

text \<open>
  What does hold of the two claims above. When a session is installed (the manager holds
  its stream), a call of \<open>stopSuggestionStream\<close> or a further call of
  \<open>startSuggestionStream\<close> closes that stream during the call, invokes nothing, and
  whatever happens afterwards no callback is invoked through that stream again.
\<close>

theorem installed_session_is_silenced:
  assumes "eventSource s = Some sid" and "sid < length (streams s)"
    and "e = Stop \<or> is_start e"
  shows "invoked (step e s) = invoked s
    \<and> closed (streams (step e s) ! sid)
    \<and> (\<forall>ins. \<exists>new. invoked (run ins (step e s)) = invoked s @ new
               \<and> (\<forall>entry \<in> set new. fst entry \<noteq> sid))"
proof -
  from assms(3) have cl: "is_closed (step e s) sid" and same: "invoked (step e s) = invoked s"
    using is_closed_held_after_call [OF assms(1,2)] by (cases e; simp)+
  have "\<exists>new. invoked (run ins (step e s)) = invoked s @ new
               \<and> (\<forall>entry \<in> set new. fst entry \<noteq> sid)" for ins
    using invoked_run [OF cl, of ins] same by simp
  with cl same show ?thesis by (simp add: is_closed_def del: step.simps)
qed

theorem installed_session_is_silenced_witness:
  "eventSource (run [Start ''t1'' (Callback 1 (\<lambda>v. False)) Constructs, Yield] init) = Some 0
   \<and> 0 < length (streams (run [Start ''t1'' (Callback 1 (\<lambda>v. False)) Constructs, Yield] init))
   \<and> is_start (Start ''t2'' (Callback 2 (\<lambda>v. False)) Constructs)
   \<and> invoked (run [Message 0 (Parseable (JObj [(''event'', JStr ''react''), (''suggestions'', JArr [JStr ''a''])])),
                    Message 1 (Parseable (JObj [(''event'', JStr ''react''), (''suggestions'', JArr [JStr ''b''])]))]
                (step (Start ''t2'' (Callback 2 (\<lambda>v. False)) Constructs)
                   (run [Start ''t1'' (Callback 1 (\<lambda>v. False)) Constructs, Yield] init)))
       = [(1, 2, JObj [(''event'', JStr ''react''), (''suggestions'', JArr [JStr ''b''])])]"
  using installed_session_is_silenced
    [of "run [Start ''t1'' (Callback 1 (\<lambda>v. False)) Constructs, Yield] init" 0
        "Start ''t2'' (Callback 2 (\<lambda>v. False)) Constructs"]
  by (simp add: eval_defs)

text \<open>
  When every call of \<open>startSuggestionStream\<close> is the last thing its task does, a manager
  started fresh never has a stream open other than the one it holds. A further call
  whose stream is constructed then leaves every earlier stream closed and holds exactly
  one new open stream, addressed to the thread id of the call.
\<close>

theorem one_stream_in_sequential_use:
  assumes "sequential ins"
  shows "(\<forall>sid < length (streams (run ins init)).
            closed (streams (run ins init) ! sid) \<or> eventSource (run ins init) = Some sid)
    \<and> length (streams (run (ins @ [Start tid cb Constructs, Yield]) init))
         = Suc (length (streams (run ins init)))
    \<and> url_thread (streams (run (ins @ [Start tid cb Constructs, Yield]) init)
         ! length (streams (run ins init))) = tid
    \<and> \<not> closed (streams (run (ins @ [Start tid cb Constructs, Yield]) init)
         ! length (streams (run ins init)))
    \<and> eventSource (run (ins @ [Start tid cb Constructs, Yield]) init)
         = Some (length (streams (run ins init)))
    \<and> (\<forall>sid < length (streams (run ins init)).
            closed (streams (run (ins @ [Start tid cb Constructs, Yield]) init) ! sid))"
proof -
  define s where "s = run ins init"
  define t where "t = run [Start tid cb Constructs, Yield] s"
  have s: "only_held_is_open s"
    unfolding s_def using assms only_held_is_open_init by (rule only_held_is_open_run)
  then have held: "\<forall>sid < length (streams s). closed (streams s ! sid) \<or> eventSource s = Some sid"
    by (simp add: only_held_is_open_def)
  have t: "only_held_is_open t"
    unfolding t_def by (rule only_held_is_open_start_yield [OF s])
  note r = restart_streams [OF s, of tid cb, folded t_def]
  have "closed (streams t ! sid)" if "sid < length (streams s)" for sid
  proof -
    from that r(1) have "sid < length (streams t)" by simp
    with t have "closed (streams t ! sid) \<or> eventSource t = Some sid"
      by (simp add: only_held_is_open_def)
    with r(4) that show ?thesis by auto
  qed
  with held r have "(\<forall>sid < length (streams s). closed (streams s ! sid) \<or> eventSource s = Some sid)
    \<and> length (streams t) = Suc (length (streams s))
    \<and> url_thread (streams t ! length (streams s)) = tid
    \<and> \<not> closed (streams t ! length (streams s))
    \<and> eventSource t = Some (length (streams s))
    \<and> (\<forall>sid < length (streams s). closed (streams t ! sid))" by blast
  then show ?thesis
    unfolding t_def s_def by (simp add: run_append)
qed

theorem one_stream_in_sequential_use_witness:
  "sequential [Start ''t1'' (Callback 1 (\<lambda>v. False)) Constructs, Yield]
   \<and> map closed (streams (run [Start ''t1'' (Callback 1 (\<lambda>v. False)) Constructs, Yield] init)) = [False]
   \<and> eventSource (run [Start ''t1'' (Callback 1 (\<lambda>v. False)) Constructs, Yield] init) = Some 0
   \<and> map closed (streams (run ([Start ''t1'' (Callback 1 (\<lambda>v. False)) Constructs, Yield]
         @ [Start ''t2'' (Callback 2 (\<lambda>v. False)) Constructs, Yield]) init)) = [True, False]
   \<and> eventSource (run ([Start ''t1'' (Callback 1 (\<lambda>v. False)) Constructs, Yield]
         @ [Start ''t2'' (Callback 2 (\<lambda>v. False)) Constructs, Yield]) init) = Some 1"
  using one_stream_in_sequential_use
    [of "[Start ''t1'' (Callback 1 (\<lambda>v. False)) Constructs, Yield]" "''t2''"
        "Callback 2 (\<lambda>v. False)"]
  by (simp add: eval_defs)

section \<open>The expiry timer\<close>




section \<open>The callback registry\<close>

text \<open>
  Claim C3, as stated: starting a new session clears all prior registry entries,
  including those registered under other thread ids. Both classes only call
  \<open>suggestionCallbacks.set(threadId, callback)\<close> when a session starts. Counterexample:
  after a session for \<open>t1\<close> and then a session for \<open>t2\<close>, the manager holds the stream
  of \<open>t2\<close> and the registry still maps \<open>t1\<close> to the first callback.
\<close>

theorem stale_registry_entry_counterexample:
  "map_option cb_name (suggestionCallbacks
      (run [Start ''t1'' (Callback 1 (\<lambda>v. False)) Constructs, Yield,
            Start ''t2'' (Callback 2 (\<lambda>v. False)) Constructs, Yield] init) ''t1'') = Some 1
   \<and> eventSource
      (run [Start ''t1'' (Callback 1 (\<lambda>v. False)) Constructs, Yield,
            Start ''t2'' (Callback 2 (\<lambda>v. False)) Constructs, Yield] init) = Some 1
   \<and> map url_thread (streams
      (run [Start ''t1'' (Callback 1 (\<lambda>v. False)) Constructs, Yield,
            Start ''t2'' (Callback 2 (\<lambda>v. False)) Constructs, Yield] init)) = [''t1'', ''t2'']
   \<and> map_option cb_name (suggestionCallbacks
      (run_mobile [Start ''t1'' (Callback 1 (\<lambda>v. False)) Constructs, Yield,
            Start ''t2'' (Callback 2 (\<lambda>v. False)) Constructs, Yield] init) ''t1'') = Some 1"
  by (simp add: eval_defs)

text \<open>
  Claim C3, amended: \<open>startSuggestionStream\<close> sets the entry of its own thread id and
  keeps every other entry; \<open>stopSuggestionStream\<close> empties the registry; and whatever
  else happens to the manager (the end of a task, a message, a stream error, time
  passing) either leaves the registry as it is or empties it. So an entry stays until
  it is replaced under the same thread id or until a teardown clears the whole registry.
\<close>

theorem registry_entries_go_only_by_teardown:
  "(case e of
      Start threadId cb rt \<Rightarrow>
        suggestionCallbacks (step e s) = (suggestionCallbacks s)(threadId \<mapsto> cb)
    | Stop \<Rightarrow> suggestionCallbacks (step e s) = Map.empty
    | _ \<Rightarrow> suggestionCallbacks (step e s) = suggestionCallbacks s
          \<or> suggestionCallbacks (step e s) = Map.empty)
   \<and> (case e of
      Start threadId cb rt \<Rightarrow>
        suggestionCallbacks (step_mobile e s) = (suggestionCallbacks s)(threadId \<mapsto> cb)
    | Stop \<Rightarrow> suggestionCallbacks (step_mobile e s) = Map.empty
    | _ \<Rightarrow> suggestionCallbacks (step_mobile e s) = suggestionCallbacks s
          \<or> suggestionCallbacks (step_mobile e s) = Map.empty)"
  using step_registry [of e s] step_mobile_registry [of e s] by simp

theorem registry_entries_go_only_by_teardown_witness:
  "map_option cb_name
     (suggestionCallbacks
        (step (Start ''t2'' (Callback 2 (\<lambda>v. False)) Constructs)
           (run [Start ''t1'' (Callback 1 (\<lambda>v. False)) Constructs, Yield] init)) ''t1'') = Some 1
   \<and> map_option cb_name
     (suggestionCallbacks
        (step (Start ''t2'' (Callback 2 (\<lambda>v. False)) Constructs)
           (run [Start ''t1'' (Callback 1 (\<lambda>v. False)) Constructs, Yield] init)) ''t2'') = Some 2"
  using registry_entries_go_only_by_teardown
    [of "Start ''t2'' (Callback 2 (\<lambda>v. False)) Constructs"
        "run [Start ''t1'' (Callback 1 (\<lambda>v. False)) Constructs, Yield] init"]
  by (simp add: eval_defs)

section \<open>Messages that do not decode\<close>

text \<open>
  Claim C7, as stated: a message whose payload is not parseable per the Event shape is
  dropped, with no callback invocation and no teardown. The handlers decode with
  \<open>JSON.parse(event.data) as SuggestionEvent\<close>: the cast checks nothing at run time.
  Counterexample: the payload \<open>{"final": true}\<close> is JSON but not a \<open>SuggestionEvent\<close>
  (it has neither \<open>suggestions\<close> nor \<open>event\<close>); the callback is called with it and the
  manager is torn down.
\<close>

theorem misshapen_message_counterexample:
  "\<not> is_SuggestionEvent (JObj [(''final'', JBool True)])
   \<and> message_listener (run [Start ''t1'' (Callback 1 (\<lambda>v. False)) Constructs, Yield] init) 0 = Some ''t1''
   \<and> invoked (run [Start ''t1'' (Callback 1 (\<lambda>v. False)) Constructs, Yield,
                   Message 0 (Parseable (JObj [(''final'', JBool True)]))] init)
       = [(0, 1, JObj [(''final'', JBool True)])]
   \<and> eventSource (run [Start ''t1'' (Callback 1 (\<lambda>v. False)) Constructs, Yield,
                   Message 0 (Parseable (JObj [(''final'', JBool True)]))] init) = None"
  by (simp add: eval_defs present_and_def absent_or_def)

text \<open>
  Claim C7, amended: a message whose payload is not JSON (\<open>JSON.parse\<close> throws) is
  dropped. Delivered as a task of the event loop (the job queue is empty), it leaves the
  whole state as it was: no callback invocation, no teardown, the same stream held, in
  both classes. Nothing is thrown to the runtime, as the \<open>catch\<close> of the handler takes the
  error.
\<close>

theorem unparseable_message_is_dropped:
  "JSON_parse raw = Inl e \<Longrightarrow> microtasks s = [] \<Longrightarrow>
     step (Message sid raw) s = s \<and> step_mobile (Message sid raw) s = s"
  by (simp add: onmessage_frontend_def onmessage_mobile_def split: option.splits)

theorem unparseable_message_is_dropped_witness:
  "JSON_parse (Unparseable ''{not json'') = Inl SyntaxError
   \<and> microtasks (run [Start ''t1'' (Callback 1 (\<lambda>v. False)) Constructs, Yield] init) = []
   \<and> message_listener (run [Start ''t1'' (Callback 1 (\<lambda>v. False)) Constructs, Yield] init) 0 = Some ''t1''
   \<and> step (Message 0 (Unparseable ''{not json''))
        (run [Start ''t1'' (Callback 1 (\<lambda>v. False)) Constructs, Yield] init)
      = run [Start ''t1'' (Callback 1 (\<lambda>v. False)) Constructs, Yield] init
   \<and> eventSource (step (Message 0 (Unparseable ''{not json''))
        (run [Start ''t1'' (Callback 1 (\<lambda>v. False)) Constructs, Yield] init)) = Some 0"
  using unparseable_message_is_dropped
    [of "Unparseable ''{not json''" SyntaxError
        "run [Start ''t1'' (Callback 1 (\<lambda>v. False)) Constructs, Yield] init" 0]
  by (simp add: eval_defs)

section \<open>The final event\<close>

text \<open>
  Claim C5, as stated: for every decoded event with \<open>final = true\<close> delivered on the
  active session, the registered callback is invoked once and then the manager performs
  the teardown of \<open>stop()\<close>. In both handlers the callback is called inside the \<open>try\<close>,
  before \<open>if (data.final)\<close>: when the callback throws, the \<open>catch\<close> ends the handler and
  the teardown is skipped. Counterexample: with a callback that throws, a well-formed
  final event leaves the manager holding its stream, the stream open, and the next
  message on that stream invokes the callback again.
\<close>

theorem throwing_callback_counterexample:
  "message_listener (run [Start ''t1'' (Callback 1 (\<lambda>v. True)) Constructs, Yield] init) 0 = Some ''t1''
   \<and> is_SuggestionEvent (JObj [(''event'', JStr ''react''), (''suggestions'', JArr [JStr ''a'']),
                        (''final'', JBool True)])
   \<and> invoked (run [Start ''t1'' (Callback 1 (\<lambda>v. True)) Constructs, Yield,
                    Message 0 (Parseable (JObj [(''event'', JStr ''react''),
                       (''suggestions'', JArr [JStr ''a'']), (''final'', JBool True)]))] init)
       = [(0, 1, JObj [(''event'', JStr ''react''), (''suggestions'', JArr [JStr ''a'']),
                        (''final'', JBool True)])]
   \<and> eventSource (run [Start ''t1'' (Callback 1 (\<lambda>v. True)) Constructs, Yield,
                    Message 0 (Parseable (JObj [(''event'', JStr ''react''),
                       (''suggestions'', JArr [JStr ''a'']), (''final'', JBool True)]))] init) = Some 0
   \<and> map closed (streams (run [Start ''t1'' (Callback 1 (\<lambda>v. True)) Constructs, Yield,
                    Message 0 (Parseable (JObj [(''event'', JStr ''react''),
                       (''suggestions'', JArr [JStr ''a'']), (''final'', JBool True)]))] init)) = [False]
   \<and> invoked (run [Start ''t1'' (Callback 1 (\<lambda>v. True)) Constructs, Yield,
                    Message 0 (Parseable (JObj [(''event'', JStr ''react''),
                       (''suggestions'', JArr [JStr ''a'']), (''final'', JBool True)])),
                    Message 0 (Parseable (JObj [(''event'', JStr ''react''),
                       (''suggestions'', JArr [JStr ''b''])]))] init)
       = [(0, 1, JObj [(''event'', JStr ''react''), (''suggestions'', JArr [JStr ''a'']),
                        (''final'', JBool True)]),
          (0, 1, JObj [(''event'', JStr ''react''), (''suggestions'', JArr [JStr ''b''])])]"
  by (simp add: eval_defs present_and_def absent_or_def)

text \<open>
  Claim C5, amended: for every decoded event whose \<open>final\<close> is truthy, delivered as a
  task of the event loop by the stream the manager holds, with a callback registered for
  the thread of that stream that returns normally on the event: the callback is invoked
  exactly once with that event, and the manager then is exactly where
  \<open>stopSuggestionStream\<close> takes it (no stream held, the stream closed, the registry
  empty). Whatever happens to the manager afterwards, that stream never invokes a
  callback again.
\<close>

theorem final_event_tears_down:
  assumes "microtasks s = []"
    and "eventSource s = Some sid"
    and "message_listener s sid = Some threadId"
    and "suggestionCallbacks s threadId = Some cb"
    and "\<not> cb_throws cb data"
    and "get_final data = Inr v" and "truthy v"
  shows "step (Message sid (Parseable data)) s =
           stopSuggestionStream (s\<lparr>invoked := invoked s @ [(sid, cb_name cb, data)]\<rparr>)
    \<and> eventSource (step (Message sid (Parseable data)) s) = None
    \<and> suggestionCallbacks (step (Message sid (Parseable data)) s) = Map.empty
    \<and> closed (streams (step (Message sid (Parseable data)) s) ! sid)
    \<and> (\<forall>ins. \<exists>new.
          invoked (run ins (step (Message sid (Parseable data)) s)) =
            invoked s @ [(sid, cb_name cb, data)] @ new
          \<and> (\<forall>entry \<in> set new. fst entry \<noteq> sid))"
proof -
  define t where "t = step (Message sid (Parseable data)) s"
  have eq: "t = stopSuggestionStream (s\<lparr>invoked := invoked s @ [(sid, cb_name cb, data)]\<rparr>)"
    unfolding t_def using assms by (intro final_message_step)
  from assms(3) have "sid < length (streams s)"
    by (simp add: message_listener_def split: if_splits)
  with assms(2) have cl: "is_closed t sid"
    unfolding eq by (intro is_closed_after_stop) simp_all
  have later: "\<exists>new. invoked (run ins t) = invoked s @ [(sid, cb_name cb, data)] @ new
          \<and> (\<forall>entry \<in> set new. fst entry \<noteq> sid)" for ins
    using invoked_run [OF cl, of ins] by (simp add: eq)
  have "eventSource t = None" "suggestionCallbacks t = Map.empty"
    by (simp_all add: eq)
  moreover from cl have "closed (streams t ! sid)" by (simp add: is_closed_def)
  ultimately show ?thesis
    unfolding t_def [symmetric] using eq later by blast
qed

theorem final_event_tears_down_witness:
  "microtasks (run [Start ''t1'' (Callback 1 (\<lambda>v. False)) Constructs, Yield] init) = []
   \<and> eventSource (run [Start ''t1'' (Callback 1 (\<lambda>v. False)) Constructs, Yield] init) = Some 0
   \<and> message_listener (run [Start ''t1'' (Callback 1 (\<lambda>v. False)) Constructs, Yield] init) 0 = Some ''t1''
   \<and> map_option cb_name (suggestionCallbacks
         (run [Start ''t1'' (Callback 1 (\<lambda>v. False)) Constructs, Yield] init) ''t1'') = Some 1
   \<and> get_final (JObj [(''event'', JStr ''react''), (''suggestions'', JArr [JStr ''a'']),
                        (''final'', JBool True)]) = Inr (Some (JBool True))
   \<and> truthy (Some (JBool True))
   \<and> invoked (run [Start ''t1'' (Callback 1 (\<lambda>v. False)) Constructs, Yield,
                    Message 0 (Parseable (JObj [(''event'', JStr ''react''),
                       (''suggestions'', JArr [JStr ''a'']), (''final'', JBool True)])),
                    Message 0 (Parseable (JObj [(''event'', JStr ''react''),
                       (''suggestions'', JArr [JStr ''b'']), (''final'', JBool True)]))] init)
       = [(0, 1, JObj [(''event'', JStr ''react''), (''suggestions'', JArr [JStr ''a'']),
                        (''final'', JBool True)])]
   \<and> eventSource (run [Start ''t1'' (Callback 1 (\<lambda>v. False)) Constructs, Yield,
                    Message 0 (Parseable (JObj [(''event'', JStr ''react''),
                       (''suggestions'', JArr [JStr ''a'']), (''final'', JBool True)]))] init) = None"
  using final_event_tears_down
    [of "run [Start ''t1'' (Callback 1 (\<lambda>v. False)) Constructs, Yield] init" 0 "''t1''"
        "Callback 1 (\<lambda>v. False)"
        "JObj [(''event'', JStr ''react''), (''suggestions'', JArr [JStr ''a'']), (''final'', JBool True)]"
        "Some (JBool True)"]
  by (simp add: eval_defs)

section \<open>The 15 second limit\<close>

text \<open>
  Claim C6. A session that nothing ends is ended by its timer: start a session (from any
  state, at any time) and let its promise job run; afterwards let only messages without a
  truthy \<open>final\<close>, ends of tasks and the passing of time happen. The call constructs the
  session's stream, open, as the next stream after those that exist. As soon as the clock
  is 15000 ms or more past the time of the call, the session has been closed by force:
  the manager holds no stream, its registry is empty, and \<open>close()\<close> has been called on
  the session's stream. The deadline is fixed when the stream is installed and
  messages do not move it (they are among the inputs allowed here). The task in which
  timers fire invokes no callback.
\<close>

theorem session_ends_within_15_seconds:
  assumes "\<forall>e \<in> set ins. \<not> terminating e"
    and "now s + 15000 \<le> now (run ins (run [Start threadId cb Constructs, Yield] s))"
  shows "streams (step (Start threadId cb Constructs) s) ! length (streams s)
           = \<lparr>url_thread = threadId, closed = False, onmessage = None, onerror = False\<rparr>
    \<and> eventSource (run ins (run [Start threadId cb Constructs, Yield] s)) = None
    \<and> suggestionCallbacks (run ins (run [Start threadId cb Constructs, Yield] s)) = Map.empty
    \<and> length (streams s) < length (streams (run ins (run [Start threadId cb Constructs, Yield] s)))
    \<and> closed (streams (run ins (run [Start threadId cb Constructs, Yield] s)) ! length (streams s))
    \<and> (\<forall>d t. invoked (step (Advance d) t) = invoked t)"
proof -
  define t where "t = run [Start threadId cb Constructs, Yield] s"
  define u where "u = run ins t"
  from session_invariants_run [OF on_schedule_started held_or_closed_started assms(1)]
  have inv: "on_schedule (now s + 15000) u" "held_or_closed (length (streams s)) u"
    unfolding u_def t_def by blast+
  from inv(1) assms(2) have idle: "eventSource u = None" "suggestionCallbacks u = Map.empty"
    unfolding on_schedule_def u_def t_def by auto
  with inv(2) have cl: "length (streams s) < length (streams u)"
    "closed (streams u ! length (streams s))"
    by (simp_all add: held_or_closed_def)
  have new: "streams (step (Start threadId cb Constructs) s) ! length (streams s) =
      \<lparr>url_thread = threadId, closed = False, onmessage = None, onerror = False\<rparr>"
    by (simp add: startSuggestionStream_as_call_effect call_effect_def new_EventSource_def
          Let_def nth_append split: option.splits)
  from new idle cl timer_task_invokes_nothing show ?thesis
    unfolding u_def t_def by blast
qed

theorem session_ends_within_15_seconds_witness:
  "\<not> terminating (Message 0 (Parseable (JObj [(''event'', JStr ''react''), (''suggestions'', JArr [JStr ''a''])])))
   \<and> \<not> terminating (Advance 7000) \<and> \<not> terminating (Advance 8000)
   \<and> eventSource (run [Advance 7000,
                        Message 0 (Parseable (JObj [(''event'', JStr ''react''), (''suggestions'', JArr [JStr ''a''])]))]
                   (run [Start ''t1'' (Callback 1 (\<lambda>v. False)) Constructs, Yield] init)) = Some 0
   \<and> map closed (streams (run [Advance 7000,
                        Message 0 (Parseable (JObj [(''event'', JStr ''react''), (''suggestions'', JArr [JStr ''a''])]))]
                   (run [Start ''t1'' (Callback 1 (\<lambda>v. False)) Constructs, Yield] init))) = [False]
   \<and> now init + 15000 \<le> now (run [Advance 7000,
                        Message 0 (Parseable (JObj [(''event'', JStr ''react''), (''suggestions'', JArr [JStr ''a''])])),
                        Advance 8000]
                   (run [Start ''t1'' (Callback 1 (\<lambda>v. False)) Constructs, Yield] init))
   \<and> eventSource (run [Advance 7000,
                        Message 0 (Parseable (JObj [(''event'', JStr ''react''), (''suggestions'', JArr [JStr ''a''])])),
                        Advance 8000]
                   (run [Start ''t1'' (Callback 1 (\<lambda>v. False)) Constructs, Yield] init)) = None
   \<and> map closed (streams (run [Advance 7000,
                        Message 0 (Parseable (JObj [(''event'', JStr ''react''), (''suggestions'', JArr [JStr ''a''])])),
                        Advance 8000]
                   (run [Start ''t1'' (Callback 1 (\<lambda>v. False)) Constructs, Yield] init))) = [True]
   \<and> invoked (run [Advance 7000,
                        Message 0 (Parseable (JObj [(''event'', JStr ''react''), (''suggestions'', JArr [JStr ''a''])])),
                        Advance 8000]
                   (run [Start ''t1'' (Callback 1 (\<lambda>v. False)) Constructs, Yield] init))
       = [(0, 1, JObj [(''event'', JStr ''react''), (''suggestions'', JArr [JStr ''a''])])]"
  using session_ends_within_15_seconds
    [of "[Advance 7000,
          Message 0 (Parseable (JObj [(''event'', JStr ''react''), (''suggestions'', JArr [JStr ''a''])])),
          Advance 8000]" init "''t1''" "Callback 1 (\<lambda>v. False)"]
  by (simp add: eval_defs carries_final_def)

section \<open>The frontend class and the mobile class\<close>

text \<open>
  Claim C10, as stated: for every sequence of calls and notifications the two classes
  invoke the same callbacks and end in the same state. The frontend handles a failed
  construction in the \<open>catch\<close> around its \<open>await\<close>, in the promise job of the call; the
  mobile class handles it in \<open>.catch(...)\<close> chained behind \<open>.then(...)\<close>, one promise job
  later. Counterexample: \<open>startSuggestionStream(t1, cb1)\<close> whose construction throws,
  followed in the same task by \<open>startSuggestionStream(t2, cb2)\<close> whose stream is
  constructed. In the frontend the teardown for \<open>t1\<close> runs first and the stream of \<open>t2\<close> is
  installed after it: the manager ends holding an open stream. In the mobile class the
  stream of \<open>t2\<close> is installed first and the teardown for \<open>t1\<close> then closes it: the manager
  ends idle.
\<close>

theorem classes_differ_counterexample:
  "eventSource (run [Start ''t1'' (Callback 1 (\<lambda>v. False)) Constructor_throws,
                     Start ''t2'' (Callback 2 (\<lambda>v. False)) Constructs, Yield] init) = Some 0
   \<and> map closed (streams (run [Start ''t1'' (Callback 1 (\<lambda>v. False)) Constructor_throws,
                     Start ''t2'' (Callback 2 (\<lambda>v. False)) Constructs, Yield] init)) = [False]
   \<and> eventSource (run_mobile [Start ''t1'' (Callback 1 (\<lambda>v. False)) Constructor_throws,
                     Start ''t2'' (Callback 2 (\<lambda>v. False)) Constructs, Yield] init) = None
   \<and> map closed (streams (run_mobile [Start ''t1'' (Callback 1 (\<lambda>v. False)) Constructor_throws,
                     Start ''t2'' (Callback 2 (\<lambda>v. False)) Constructs, Yield] init)) = [True]"
  by (simp add: eval_defs)

text \<open>
  Claim C10, amended: the two classes agree on every orderly sequence, that is, on every
  sequence of calls, ends of tasks, messages, stream errors and clock advances with the
  same outcomes of stream construction in which no call whose stream is constructed
  follows, within one task, a call whose construction failed. Started from the same
  state with an empty job queue, both make the same callback invocations in the same
  order and end with the same stream held, the same registry, the same streams (open or
  closed, with the same handlers), the same pending timers and the same clock.
\<close>

theorem frontend_and_mobile_agree:
  assumes "orderly False ins" and "microtasks s = []"
  shows "invoked (run ins s) = invoked (run_mobile ins s)
    \<and> eventSource (run ins s) = eventSource (run_mobile ins s)
    \<and> suggestionCallbacks (run ins s) = suggestionCallbacks (run_mobile ins s)
    \<and> streams (run ins s) = streams (run_mobile ins s)
    \<and> timers (run ins s) = timers (run_mobile ins s)
    \<and> now (run ins s) = now (run_mobile ins s)"
  using forget_jobs_eq_fields [OF mirrored_run [OF mirrored_same [OF assms(2)] assms(1)]]
  by simp

theorem frontend_and_mobile_agree_witness:
  "orderly False [Start ''t1'' (Callback 1 (\<lambda>v. False)) Constructs,
                  Start ''t2'' (Callback 2 (\<lambda>v. False)) No_EventSource, Yield,
                  Start ''t3'' (Callback 3 (\<lambda>v. False)) Constructs,
                  Message 1 (Parseable (JObj [(''event'', JStr ''react''), (''suggestions'', JArr [JStr ''a''])]))]
   \<and> microtasks init = []
   \<and> invoked (run [Start ''t1'' (Callback 1 (\<lambda>v. False)) Constructs,
                  Start ''t2'' (Callback 2 (\<lambda>v. False)) No_EventSource, Yield,
                  Start ''t3'' (Callback 3 (\<lambda>v. False)) Constructs,
                  Message 1 (Parseable (JObj [(''event'', JStr ''react''), (''suggestions'', JArr [JStr ''a''])]))]
                init)
       = [(1, 3, JObj [(''event'', JStr ''react''), (''suggestions'', JArr [JStr ''a''])])]
   \<and> invoked (run_mobile [Start ''t1'' (Callback 1 (\<lambda>v. False)) Constructs,
                  Start ''t2'' (Callback 2 (\<lambda>v. False)) No_EventSource, Yield,
                  Start ''t3'' (Callback 3 (\<lambda>v. False)) Constructs,
                  Message 1 (Parseable (JObj [(''event'', JStr ''react''), (''suggestions'', JArr [JStr ''a''])]))]
                init)
       = [(1, 3, JObj [(''event'', JStr ''react''), (''suggestions'', JArr [JStr ''a''])])]
   \<and> eventSource (run_mobile [Start ''t1'' (Callback 1 (\<lambda>v. False)) Constructs,
                  Start ''t2'' (Callback 2 (\<lambda>v. False)) No_EventSource, Yield,
                  Start ''t3'' (Callback 3 (\<lambda>v. False)) Constructs,
                  Message 1 (Parseable (JObj [(''event'', JStr ''react''), (''suggestions'', JArr [JStr ''a''])]))]
                init) = Some 1"
  using frontend_and_mobile_agree
    [of "[Start ''t1'' (Callback 1 (\<lambda>v. False)) Constructs,
          Start ''t2'' (Callback 2 (\<lambda>v. False)) No_EventSource, Yield,
          Start ''t3'' (Callback 3 (\<lambda>v. False)) Constructs,
          Message 1 (Parseable (JObj [(''event'', JStr ''react''), (''suggestions'', JArr [JStr ''a''])]))]"
        init]
  by (simp add: eval_defs)

section \<open>A stream that cannot be constructed\<close>




end
